theory Spec2Isabelle
  imports Main
begin

section \<open>The throttled task dispatcher of src/utils/RequestQueue.mjs\<close>

text \<open>
  The class \<open>RequestQueue\<close> holds two limits, a counter of dispatched requests, a FIFO
  queue of pending entries and a log of start timestamps. JavaScript runs each piece of
  synchronous code to completion; an \<open>async\<close> function runs synchronously up to its first
  \<open>await\<close> that has to wait. The model therefore has one function per method (the
  synchronous part of it) and one action per resumption of a suspended \<open>process()\<close> call.

  Times are integer milliseconds, as \<open>Date.now()\<close> returns them. A task function is an
  opaque value of type \<open>'f\<close>; what it produces (\<open>Inr\<close> a value of type \<open>'v\<close>) or raises
  (\<open>Inl\<close> an error of type \<open>'e\<close>) is chosen by the environment.
\<close>

subsection \<open>Data\<close>

text \<open>
  A queue entry \<open>{ fn, resolve, reject }\<close>. The pair \<open>resolve\<close>/\<open>reject\<close> belongs to the
  promise that \<open>add\<close> created; \<open>pid\<close> is the number of that promise.
\<close>

record 'f entry =
  fn :: 'f
  pid :: nat

text \<open>The fields of the class, in the order of the constructor.\<close>

record 'f RequestQueue =
  maxConcurrent :: int
  requestsPerSecond :: int
  activeRequests :: int
  queue :: "'f entry list"
  requestTimestamps :: "int list"

text \<open>
  What one run of the body of \<open>waitForRateLimit\<close> ends with: it returns (clearance is
  granted), or it sets a timer of \<open>waitTime\<close> milliseconds and will run again from the top
  when the timer fires.
\<close>

datatype clearance = Granted | Suspend int

text \<open>
  Where a \<open>process()\<close> call that has dequeued its entry stands: inside
  \<open>waitForRateLimit\<close> with a timer that is due at the given time; cleared by the limiter,
  with \<open>fn()\<close> not yet called; or awaiting the promise that \<open>fn()\<close> returned.
\<close>

datatype phase = Sleeping int | Ready | Running

text \<open>
  The observable effects, in the order in which they happen. \<open>Dequeued\<close> is lines 44-45
  (the counter goes up and the entry leaves the queue), \<open>Cleared p ts\<close> is line 29 (the
  limiter logs the start timestamp \<open>ts\<close> for entry \<open>p\<close>), \<open>Invoked\<close> is the call \<open>fn()\<close> of
  line 49, \<open>Resolved\<close> and \<open>Rejected\<close> are the calls of lines 50 and 52, and \<open>Released\<close> is
  the decrement of line 54.
\<close>

datatype ('f, 'e, 'v) event =
    Submitted nat 'f
  | Dequeued nat
  | Cleared nat int
  | Invoked nat 'f
  | Resolved nat 'v
  | Rejected nat 'e
  | Released nat

text \<open>
  The dispatcher in its environment: the object, the clock \<open>Date.now()\<close>, the suspended
  \<open>process()\<close> calls in the order of their dequeues, the number of promises created so
  far, and the history of effects.
\<close>

record ('f, 'e, 'v) world =
  rq :: "'f RequestQueue"
  clock :: int
  inflight :: "('f entry \<times> phase) list"
  promises :: nat
  events :: "('f, 'e, 'v) event list"

text \<open>
  What can happen next: a caller calls \<open>add(fn)\<close>; time passes (the clock never goes
  back); the timer of a sleeping call fires; a cleared call resumes and calls \<open>fn()\<close>; the
  promise of a running task settles with an error or a value. A call of \<open>fn()\<close> that
  throws at once is a \<open>Resume\<close> followed directly by a \<open>Settles\<close> with the error. The
  order of the resumptions is left open, so every interleaving of the event loop is a
  schedule of the model.
\<close>

datatype ('f, 'e, 'v) action =
    Add 'f
  | Tick nat
  | TimerFires nat
  | Resume nat
  | Settles nat "'e + 'v"

subsection \<open>The methods\<close>

text \<open>Lines 4-10. An argument that is left out (\<open>None\<close>) takes its default.\<close>

definition constructor :: "int option \<Rightarrow> int option \<Rightarrow> 'f RequestQueue" where
  "constructor maxConcurrent_arg requestsPerSecond_arg =
     \<lparr> maxConcurrent = (case maxConcurrent_arg of None \<Rightarrow> 30 | Some m \<Rightarrow> m),
       requestsPerSecond = (case requestsPerSecond_arg of None \<Rightarrow> 40 | Some r \<Rightarrow> r),
       activeRequests = 0,
       queue = [],
       requestTimestamps = [] \<rparr>"

text \<open>
  Lines 12-30, one run of the body. On an empty log \<open>requestTimestamps[0]\<close> is
  \<open>undefined\<close>, \<open>waitTime\<close> is \<open>NaN\<close> and \<open>NaN > 0\<close> is false: the code falls through to
  the push of line 29.
\<close>

definition waitForRateLimit :: "int \<Rightarrow> 'f RequestQueue \<Rightarrow> clearance \<times> 'f RequestQueue" where
  "waitForRateLimit now q =
     (let oneSecondAgo = now - 1000;
          q1 = q\<lparr>requestTimestamps := filter (\<lambda>ts. ts > oneSecondAgo) (requestTimestamps q)\<rparr>;
          pushed = q1\<lparr>requestTimestamps := requestTimestamps q1 @ [now]\<rparr>
      in if int (length (requestTimestamps q1)) \<ge> requestsPerSecond q1
         then (case requestTimestamps q1 of
                 [] \<Rightarrow> (Granted, pushed)
               | oldestTimestamp # _ \<Rightarrow>
                   (let waitTime = oldestTimestamp + 1000 - now
                    in if waitTime > 0 then (Suspend waitTime, q1) else (Granted, pushed)))
         else (Granted, pushed))"

text \<open>
  The call of \<open>waitForRateLimit\<close> on behalf of entry \<open>p\<close>, at the current clock: either the
  start is logged and the caller is ready to call \<open>fn()\<close>, or the caller sleeps until
  the timer is due.
\<close>

definition requestClearance :: "nat \<Rightarrow> ('f, 'e, 'v) world \<Rightarrow> phase \<times> ('f, 'e, 'v) world" where
  "requestClearance p w =
     (case waitForRateLimit (clock w) (rq w) of
        (Granted, q') \<Rightarrow> (Ready, w\<lparr>rq := q', events := events w @ [Cleared p (clock w)]\<rparr>)
      | (Suspend waitTime, q') \<Rightarrow> (Sleeping (clock w + waitTime), w\<lparr>rq := q'\<rparr>))"

text \<open>Lines 39-48: \<open>process()\<close> up to its first suspension.\<close>

definition process :: "('f, 'e, 'v) world \<Rightarrow> ('f, 'e, 'v) world" where
  "process w =
     (if activeRequests (rq w) \<ge> maxConcurrent (rq w) \<or> length (queue (rq w)) = 0 then w
      else
        (let q1 = (rq w)\<lparr>activeRequests := activeRequests (rq w) + 1\<rparr>;
             e = hd (queue q1);
             q2 = q1\<lparr>queue := tl (queue q1)\<rparr>;
             w1 = w\<lparr>rq := q2, events := events w @ [Dequeued (pid e)]\<rparr>;
             (ph, w2) = requestClearance (pid e) w1
         in w2\<lparr>inflight := inflight w2 @ [(e, ph)]\<rparr>))"

text \<open>Lines 32-37: \<open>add\<close> returns the new promise and has pushed the entry and called \<open>process()\<close>.\<close>

definition add :: "'f \<Rightarrow> ('f, 'e, 'v) world \<Rightarrow> nat \<times> ('f, 'e, 'v) world" where
  "add requestFn w =
     (let p = promises w;
          w1 = w\<lparr>promises := p + 1,
                 rq := (rq w)\<lparr>queue := queue (rq w) @ [\<lparr>fn = requestFn, pid = p\<rparr>]\<rparr>,
                 events := events w @ [Submitted p requestFn]\<rparr>
      in (p, process w1))"

subsection \<open>Suspended calls and their resumption\<close>

fun lookup :: "nat \<Rightarrow> ('f entry \<times> phase) list \<Rightarrow> ('f entry \<times> phase) option" where
  "lookup p [] = None"
| "lookup p (x # xs) = (if pid (fst x) = p then Some x else lookup p xs)"

definition set_phase :: "nat \<Rightarrow> phase \<Rightarrow> ('f entry \<times> phase) list \<Rightarrow> ('f entry \<times> phase) list" where
  "set_phase p ph xs = map (\<lambda>x. if pid (fst x) = p then (fst x, ph) else x) xs"

definition finished :: "nat \<Rightarrow> ('f entry \<times> phase) list \<Rightarrow> ('f entry \<times> phase) list" where
  "finished p xs = filter (\<lambda>x. pid (fst x) \<noteq> p) xs"

text \<open>
  Lines 24-25: the timer of a sleeping call fires, not before it is due, and
  \<open>waitForRateLimit\<close> runs again from the top.
\<close>

definition timerFires :: "nat \<Rightarrow> ('f, 'e, 'v) world \<Rightarrow> ('f, 'e, 'v) world option" where
  "timerFires p w =
     (case lookup p (inflight w) of
        Some (e, Sleeping due) \<Rightarrow>
          if due \<le> clock w
          then (let (ph, w1) = requestClearance p w
                in Some (w1\<lparr>inflight := set_phase p ph (inflight w1)\<rparr>))
          else None
      | _ \<Rightarrow> None)"

text \<open>Lines 48-49: the call resumes after \<open>await this.waitForRateLimit()\<close> and calls \<open>fn()\<close>.\<close>

definition resume :: "nat \<Rightarrow> ('f, 'e, 'v) world \<Rightarrow> ('f, 'e, 'v) world option" where
  "resume p w =
     (case lookup p (inflight w) of
        Some (e, Ready) \<Rightarrow>
          Some (w\<lparr>inflight := set_phase p Running (inflight w),
                  events := events w @ [Invoked p (fn e)]\<rparr>)
      | _ \<Rightarrow> None)"

text \<open>
  Lines 49-56: the promise of \<open>fn()\<close> settles; the outcome goes to \<open>resolve\<close> or to
  \<open>reject\<close>, and the \<open>finally\<close> block lowers the counter and calls \<open>process()\<close>.
\<close>

definition settles :: "nat \<Rightarrow> 'e + 'v \<Rightarrow> ('f, 'e, 'v) world \<Rightarrow> ('f, 'e, 'v) world option" where
  "settles p outcome w =
     (case lookup p (inflight w) of
        Some (e, Running) \<Rightarrow>
          (let w1 = w\<lparr>events := events w @
                        [case outcome of Inr result \<Rightarrow> Resolved p result
                                       | Inl error \<Rightarrow> Rejected p error]\<rparr>;
               w2 = w1\<lparr>rq := (rq w1)\<lparr>activeRequests := activeRequests (rq w1) - 1\<rparr>,
                       inflight := finished p (inflight w1),
                       events := events w1 @ [Released p]\<rparr>
           in Some (process w2))
      | _ \<Rightarrow> None)"

fun step :: "('f, 'e, 'v) action \<Rightarrow> ('f, 'e, 'v) world \<Rightarrow> ('f, 'e, 'v) world option" where
  "step (Add requestFn) w = Some (snd (add requestFn w))"
| "step (Tick d) w = Some (w\<lparr>clock := clock w + int d\<rparr>)"
| "step (TimerFires p) w = timerFires p w"
| "step (Resume p) w = resume p w"
| "step (Settles p outcome) w = settles p outcome w"

text \<open>A run: the actions of a schedule, one after the other; \<open>None\<close> when one of them cannot happen.\<close>

fun exec :: "('f, 'e, 'v) action list \<Rightarrow> ('f, 'e, 'v) world \<Rightarrow> ('f, 'e, 'v) world option" where
  "exec [] w = Some w"
| "exec (a # as) w = (case step a w of None \<Rightarrow> None | Some w' \<Rightarrow> exec as w')"

text \<open>The world right after \<open>new RequestQueue(...)\<close>, at clock \<open>t0\<close>.\<close>

definition boot :: "int \<Rightarrow> int option \<Rightarrow> int option \<Rightarrow> ('f, 'e, 'v) world" where
  "boot t0 maxConcurrent_arg requestsPerSecond_arg =
     \<lparr> rq = constructor maxConcurrent_arg requestsPerSecond_arg,
       clock = t0, inflight = [], promises = 0, events = [] \<rparr>"

subsection \<open>Reading the history\<close>

text \<open>The start timestamps that the limiter has logged, oldest first (pruned or not).\<close>

definition start_times :: "('f, 'e, 'v) event list \<Rightarrow> int list" where
  "start_times evs = concat (map (\<lambda>ev. case ev of Cleared p ts \<Rightarrow> [ts] | _ \<Rightarrow> []) evs)"

text \<open>The promises in the order of their submission, of their dequeue, and of their settlement.\<close>

definition submitted_pids :: "('f, 'e, 'v) event list \<Rightarrow> nat list" where
  "submitted_pids evs = concat (map (\<lambda>ev. case ev of Submitted p f \<Rightarrow> [p] | _ \<Rightarrow> []) evs)"

definition dequeued_pids :: "('f, 'e, 'v) event list \<Rightarrow> nat list" where
  "dequeued_pids evs = concat (map (\<lambda>ev. case ev of Dequeued p \<Rightarrow> [p] | _ \<Rightarrow> []) evs)"

definition invoked_pids :: "('f, 'e, 'v) event list \<Rightarrow> nat list" where
  "invoked_pids evs = concat (map (\<lambda>ev. case ev of Invoked p f \<Rightarrow> [p] | _ \<Rightarrow> []) evs)"

definition settled_pids :: "('f, 'e, 'v) event list \<Rightarrow> nat list" where
  "settled_pids evs =
     concat (map (\<lambda>ev. case ev of Resolved p v \<Rightarrow> [p] | Rejected p e \<Rightarrow> [p] | _ \<Rightarrow> []) evs)"


text \<open>How promise \<open>p\<close> was settled: every call of its \<open>resolve\<close> or \<open>reject\<close>, with the argument.\<close>

definition settled_with :: "nat \<Rightarrow> ('f, 'e, 'v) event list \<Rightarrow> ('e + 'v) list" where
  "settled_with p evs =
     concat (map (\<lambda>ev. case ev of
                          Resolved p' v \<Rightarrow> if p' = p then [Inr v] else []
                        | Rejected p' e \<Rightarrow> if p' = p then [Inl e] else []
                        | _ \<Rightarrow> []) evs)"


definition is_dequeue :: "nat \<Rightarrow> ('f, 'e, 'v) event \<Rightarrow> bool" where
  "is_dequeue p ev = (case ev of Dequeued p' \<Rightarrow> p' = p | _ \<Rightarrow> False)"

definition is_invoke :: "nat \<Rightarrow> ('f, 'e, 'v) event \<Rightarrow> bool" where
  "is_invoke p ev = (case ev of Invoked p' f \<Rightarrow> p' = p | _ \<Rightarrow> False)"

definition is_settle :: "nat \<Rightarrow> ('f, 'e, 'v) event \<Rightarrow> bool" where
  "is_settle p ev = (case ev of Resolved p' v \<Rightarrow> p' = p | Rejected p' e \<Rightarrow> p' = p | _ \<Rightarrow> False)"

definition is_release :: "nat \<Rightarrow> ('f, 'e, 'v) event \<Rightarrow> bool" where
  "is_release p ev = (case ev of Released p' \<Rightarrow> p' = p | _ \<Rightarrow> False)"

text \<open>
  \<open>before A B evs\<close>: wherever an event with \<open>B\<close> stands in \<open>evs\<close>, an event with \<open>A\<close>
  stands strictly earlier.
\<close>

fun before :: "('a \<Rightarrow> bool) \<Rightarrow> ('a \<Rightarrow> bool) \<Rightarrow> 'a list \<Rightarrow> bool" where
  "before A B [] = True"
| "before A B (ev # evs) = (\<not> B ev \<and> (A ev \<or> before A B evs))"

definition pids_of :: "('f entry \<times> phase) list \<Rightarrow> nat list" where
  "pids_of xs = map (\<lambda>x. pid (fst x)) xs"

text \<open>The promises in the order in which the limiter cleared them.\<close>

definition cleared_pids :: "('f, 'e, 'v) event list \<Rightarrow> nat list" where
  "cleared_pids evs = concat (map (\<lambda>ev. case ev of Cleared p ts \<Rightarrow> [p] | _ \<Rightarrow> []) evs)"

definition is_clear :: "nat \<Rightarrow> ('f, 'e, 'v) event \<Rightarrow> bool" where
  "is_clear p ev = (case ev of Cleared p' ts \<Rightarrow> p' = p | _ \<Rightarrow> False)"

text \<open>
  How many of the instants \<open>starts\<close> lie in the trailing window of 1000 ms that ends at
  \<open>t\<close>: in \<open>(t - 1000, t]\<close>, as the filter of line 17 counts, and in \<open>[t - 1000, t]\<close>.
\<close>

definition starts_within :: "int \<Rightarrow> int list \<Rightarrow> nat" where
  "starts_within t starts = length (filter (\<lambda>s. t - 1000 < s \<and> s \<le> t) starts)"

definition starts_within_closed :: "int \<Rightarrow> int list \<Rightarrow> nat" where
  "starts_within_closed t starts = length (filter (\<lambda>s. t - 1000 \<le> s \<and> s \<le> t) starts)"

text \<open>What the clock reads at each call \<open>fn()\<close> of a schedule (line 49), in order.\<close>

fun invoke_times :: "('f, 'e, 'v) action list \<Rightarrow> ('f, 'e, 'v) world \<Rightarrow> int list" where
  "invoke_times [] w = []"
| "invoke_times (a # as) w =
     (case step a w of
        None \<Rightarrow> []
      | Some w' \<Rightarrow> (case a of Resume p \<Rightarrow> [clock w] | _ \<Rightarrow> []) @ invoke_times as w')"

subsection \<open>A scheduler that lets everything finish\<close>

text \<open>
  The next thing to happen when no further task is submitted: a cleared call resumes
  first (it is a microtask); else the task of a running call settles, with the outcome
  \<open>out\<close> gives for it; else time passes until the timer of the first sleeping call is due
  and the logged starts are more than a second old, and that timer fires. Nothing is
  left to happen when no call is in flight.
\<close>

definition scheduler ::
  "(nat \<Rightarrow> 'e + 'v) \<Rightarrow> ('f, 'e, 'v) world \<Rightarrow> ('f, 'e, 'v) action list" where
  "scheduler out w =
     (case find (\<lambda>x. snd x = Ready) (inflight w) of
        Some x \<Rightarrow> [Resume (pid (fst x))]
      | None \<Rightarrow>
         (case find (\<lambda>x. snd x = Running) (inflight w) of
            Some x \<Rightarrow> [Settles (pid (fst x)) (out (pid (fst x)))]
          | None \<Rightarrow>
             (case inflight w of
                [] \<Rightarrow> []
              | x # _ \<Rightarrow>
                 (case snd x of
                    Sleeping due \<Rightarrow>
                      [Tick (nat (foldr max (map (\<lambda>ts. ts + 1000) (requestTimestamps (rq w)))
                                   (max due (clock w)) - clock w)),
                       TimerFires (pid (fst x))]
                  | _ \<Rightarrow> []))))"

text \<open>
  \<open>drain out n w\<close> runs the scheduler for at most \<open>n\<close> rounds; \<open>None\<close> when a round cannot
  happen or when the rounds run out with calls still in flight.
\<close>

fun drain :: "(nat \<Rightarrow> 'e + 'v) \<Rightarrow> nat \<Rightarrow> ('f, 'e, 'v) world \<Rightarrow> ('f, 'e, 'v) world option" where
  "drain out 0 w = (if scheduler out w = [] then Some w else None)"
| "drain out (Suc n) w =
     (if scheduler out w = [] then Some w
      else (case exec (scheduler out w) w of
              None \<Rightarrow> None
            | Some w' \<Rightarrow> drain out n w'))"

text \<open>
  The scheduler rounds a call in flight still needs at most: three while it sleeps, two
  when it is cleared, one while its task runs; and three for an entry in the queue.
\<close>

fun weight :: "phase \<Rightarrow> nat" where
  "weight (Sleeping due) = 3"
| "weight Ready = 2"
| "weight Running = 1"

definition work :: "('f, 'e, 'v) world \<Rightarrow> nat" where
  "work w = 3 * length (queue (rq w)) + sum_list (map (\<lambda>x. weight (snd x)) (inflight w))"

text \<open>An action of a quiet schedule: nothing is submitted, and every task settles as \<open>out\<close> says.\<close>

definition quiet :: "(nat \<Rightarrow> 'e + 'v) \<Rightarrow> ('f, 'e, 'v) action \<Rightarrow> bool" where
  "quiet out a = (case a of Add f \<Rightarrow> False | Settles p outcome \<Rightarrow> outcome = out p | _ \<Rightarrow> True)"

text \<open>
  A bound on what is left to do under any schedule. An entry that is not yet cleared
  (it waits in the queue or sleeps in the limiter) can be sent back to sleep once for
  every logged start that still blocks it and once for every other entry that is cleared
  before it.
\<close>

fun sleeping :: "phase \<Rightarrow> nat" where
  "sleeping (Sleeping due) = 1"
| "sleeping Ready = 0"
| "sleeping Running = 0"

definition ungranted :: "('f, 'e, 'v) world \<Rightarrow> nat" where
  "ungranted w = length (queue (rq w)) + sum_list (map (\<lambda>x. sleeping (snd x)) (inflight w))"

fun cost :: "nat \<Rightarrow> int list \<Rightarrow> phase \<Rightarrow> nat" where
  "cost n log (Sleeping due) = 3 + length (filter (\<lambda>ts. due < ts + 1000) log) + n"
| "cost n log Ready = 2"
| "cost n log Running = 1"

definition potential :: "('f, 'e, 'v) world \<Rightarrow> nat" where
  "potential w =
     length (queue (rq w)) * (3 + length (requestTimestamps (rq w)) + ungranted w)
     + sum_list (map (\<lambda>x. cost (ungranted w) (requestTimestamps (rq w)) (snd x)) (inflight w))"

text \<open>Every action but the passing of time.\<close>

definition busy :: "('f, 'e, 'v) action \<Rightarrow> bool" where
  "busy a = (case a of Tick d \<Rightarrow> False | _ \<Rightarrow> True)"

subsection \<open>Invariants\<close>

text \<open>
  What the limiter maintains, for the limit \<open>r\<close>, the clock \<open>c\<close>, the log and the list of all
  starts so far: no start lies in the future; the log and the list of starts agree on the
  trailing second; and every trailing window of 1000 ms holds at most \<open>max 1 r\<close> starts.
\<close>

definition rate_ok :: "int \<Rightarrow> int \<Rightarrow> int list \<Rightarrow> int list \<Rightarrow> bool" where
  "rate_ok r c log starts \<longleftrightarrow>
     (\<forall>ts \<in> set starts. ts \<le> c) \<and>
     filter (\<lambda>ts. c - 1000 < ts) log = filter (\<lambda>ts. c - 1000 < ts) starts \<and>
     (\<forall>t. int (length (filter (\<lambda>s. t - 1000 < s \<and> s \<le> t) starts)) \<le> max 1 r)"

definition rate_inv :: "('f, 'e, 'v) world \<Rightarrow> bool" where
  "rate_inv w \<longleftrightarrow>
     rate_ok (requestsPerSecond (rq w)) (clock w) (requestTimestamps (rq w))
       (start_times (events w))"

text \<open>
  The promises are numbered in the order of their submission; the first \<open>k\<close> of them have
  been dequeued, in that order, and the others wait in the queue, in that order; each
  dequeued promise is either still in flight or settled, never both, and never twice.
\<close>

definition ids_inv :: "('f, 'e, 'v) world \<Rightarrow> bool" where
  "ids_inv w \<longleftrightarrow>
     (\<exists>k. k \<le> promises w \<and>
          dequeued_pids (events w) = [0 ..< k] \<and>
          map pid (queue (rq w)) = [k ..< promises w] \<and>
          submitted_pids (events w) = [0 ..< promises w] \<and>
          distinct (pids_of (inflight w) @ settled_pids (events w)) \<and>
          set (pids_of (inflight w)) \<union> set (settled_pids (events w)) = {0 ..< k})"

text \<open>The counter is the number of calls in flight, and stays within the limit.\<close>

definition count_inv :: "('f, 'e, 'v) world \<Rightarrow> bool" where
  "count_inv w \<longleftrightarrow>
     activeRequests (rq w) = int (length (inflight w)) \<and>
     activeRequests (rq w) \<le> max 0 (maxConcurrent (rq w))"

text \<open>An entry waits in the queue only while the counter has reached the limit.\<close>

definition idle_inv :: "('f, 'e, 'v) world \<Rightarrow> bool" where
  "idle_inv w \<longleftrightarrow> (queue (rq w) \<noteq> [] \<longrightarrow> maxConcurrent (rq w) \<le> activeRequests (rq w))"

text \<open>
  No task function is called twice, and one that was called is still running or its
  promise is settled.
\<close>

definition invoked_inv :: "('f, 'e, 'v) world \<Rightarrow> bool" where
  "invoked_inv w \<longleftrightarrow>
     distinct (invoked_pids (events w)) \<and>
     (\<forall>p \<in> set (invoked_pids (events w)).
        map_option snd (lookup p (inflight w)) = Some Running \<or> p \<in> set (settled_pids (events w)))"

text \<open>
  The counter goes up before the function is called, and goes down after the promise
  is settled.
\<close>

definition order_inv :: "('f, 'e, 'v) world \<Rightarrow> bool" where
  "order_inv w \<longleftrightarrow>
     (\<forall>p. before (is_dequeue p) (is_invoke p) (events w)) \<and>
     (\<forall>p. before (is_settle p) (is_release p) (events w))"




text \<open>
  A promise is cleared at most once; a cleared call is ready or running, or its promise
  is settled; a call that is ready has been cleared; and the limiter's clearance comes
  before the call of the function.
\<close>

definition cleared_inv :: "('f, 'e, 'v) world \<Rightarrow> bool" where
  "cleared_inv w \<longleftrightarrow>
     distinct (cleared_pids (events w)) \<and>
     (\<forall>p \<in> set (cleared_pids (events w)).
        map_option snd (lookup p (inflight w)) = Some Ready \<or>
        map_option snd (lookup p (inflight w)) = Some Running \<or>
        p \<in> set (settled_pids (events w))) \<and>
     (\<forall>p. map_option snd (lookup p (inflight w)) = Some Ready \<longrightarrow>
          p \<in> set (cleared_pids (events w))) \<and>
     (\<forall>p. before (is_clear p) (is_invoke p) (events w))"


section \<open>Properties\<close>

subsection \<open>What one step does\<close>


lemma exec_invariant:
  "exec acts w0 = Some w \<Longrightarrow> P w0 \<Longrightarrow> (\<And>a u u'. P u \<Longrightarrow> step a u = Some u' \<Longrightarrow> P u') \<Longrightarrow> P w"
  by (induction acts arbitrary: w0) (auto split: option.splits)

lemma exec_append:
  "exec (as @ bs) w = (case exec as w of None \<Rightarrow> None | Some w' \<Rightarrow> exec bs w')"
  by (induction as arbitrary: w) (auto split: option.splits)

lemma waitForRateLimit_kept:
  "waitForRateLimit now q =
     (let kept = filter (\<lambda>ts. now - 1000 < ts) (requestTimestamps q)
      in if int (length kept) < requestsPerSecond q \<or> kept = []
         then (Granted, q\<lparr>requestTimestamps := kept @ [now]\<rparr>)
         else (Suspend (hd kept + 1000 - now), q\<lparr>requestTimestamps := kept\<rparr>))"
  by (auto simp: waitForRateLimit_def Let_def filter_eq_Cons_iff split: list.splits)

lemma hd_filter_recent:
  "filter (\<lambda>ts. now - 1000 < ts) xs \<noteq> [] \<Longrightarrow> 0 < hd (filter (\<lambda>ts. now - (1000::int) < ts) xs) + 1000 - now"
  by (induction xs) (auto split: if_splits)

lemma waitForRateLimit_cases:
  fixes q :: "'f RequestQueue"
  obtains (granted)
    "waitForRateLimit now q =
       (Granted, q\<lparr>requestTimestamps := filter (\<lambda>ts. now - 1000 < ts) (requestTimestamps q) @ [now]\<rparr>)"
    "int (length (filter (\<lambda>ts. now - 1000 < ts) (requestTimestamps q))) < max 1 (requestsPerSecond q)"
  | (suspended) d where
    "waitForRateLimit now q =
       (Suspend d, q\<lparr>requestTimestamps := filter (\<lambda>ts. now - 1000 < ts) (requestTimestamps q)\<rparr>)"
    "0 < d"
    "requestsPerSecond q \<le> int (length (filter (\<lambda>ts. now - 1000 < ts) (requestTimestamps q)))"
    "filter (\<lambda>ts. now - 1000 < ts) (requestTimestamps q) \<noteq> []"
    "d = hd (filter (\<lambda>ts. now - 1000 < ts) (requestTimestamps q)) + 1000 - now"
proof (cases "int (length (filter (\<lambda>ts. now - 1000 < ts) (requestTimestamps q))) < requestsPerSecond q
              \<or> filter (\<lambda>ts. now - 1000 < ts) (requestTimestamps q) = []")
  case True
  then have "waitForRateLimit now q =
       (Granted, q\<lparr>requestTimestamps := filter (\<lambda>ts. now - 1000 < ts) (requestTimestamps q) @ [now]\<rparr>)"
    by (simp add: waitForRateLimit_kept Let_def)
  moreover from True
  have "int (length (filter (\<lambda>ts. now - 1000 < ts) (requestTimestamps q))) < max 1 (requestsPerSecond q)"
    by auto
  ultimately show ?thesis by (rule granted)
next
  case False
  then have "waitForRateLimit now q =
       (Suspend (hd (filter (\<lambda>ts. now - 1000 < ts) (requestTimestamps q)) + 1000 - now),
        q\<lparr>requestTimestamps := filter (\<lambda>ts. now - 1000 < ts) (requestTimestamps q)\<rparr>)"
    by (simp add: waitForRateLimit_kept Let_def)
  moreover from False
  have "0 < hd (filter (\<lambda>ts. now - 1000 < ts) (requestTimestamps q)) + 1000 - now"
    using hd_filter_recent [of now "requestTimestamps q"] by blast
  ultimately show ?thesis using False by (intro suspended) auto
qed

lemma requestClearance_cases:
  fixes w :: "('f, 'e, 'v) world"
  obtains (granted)
    "requestClearance p w =
       (Ready, w\<lparr>rq := (rq w)\<lparr>requestTimestamps :=
                     filter (\<lambda>ts. clock w - 1000 < ts) (requestTimestamps (rq w)) @ [clock w]\<rparr>,
                 events := events w @ [Cleared p (clock w)]\<rparr>)"
    "int (length (filter (\<lambda>ts. clock w - 1000 < ts) (requestTimestamps (rq w))))
       < max 1 (requestsPerSecond (rq w))"
  | (suspended) d where
    "requestClearance p w =
       (Sleeping (clock w + d),
        w\<lparr>rq := (rq w)\<lparr>requestTimestamps :=
                     filter (\<lambda>ts. clock w - 1000 < ts) (requestTimestamps (rq w))\<rparr>\<rparr>)"
    "0 < d"
    "requestsPerSecond (rq w)
       \<le> int (length (filter (\<lambda>ts. clock w - 1000 < ts) (requestTimestamps (rq w))))"
    "filter (\<lambda>ts. clock w - 1000 < ts) (requestTimestamps (rq w)) \<noteq> []"
    "d = hd (filter (\<lambda>ts. clock w - 1000 < ts) (requestTimestamps (rq w))) + 1000 - clock w"
proof (cases rule: waitForRateLimit_cases [of "clock w" "rq w"])
  case granted
  then show ?thesis using that(1) by (simp add: requestClearance_def)
next
  case (suspended d)
  then show ?thesis using that(2) [of d] by (simp add: requestClearance_def)
qed


lemma process_cases:
  fixes w :: "('f, 'e, 'v) world"
  obtains (idle)
    "process w = w"
    "maxConcurrent (rq w) \<le> activeRequests (rq w) \<or> queue (rq w) = []"
  | (cleared) e es where
    "queue (rq w) = e # es"
    "activeRequests (rq w) < maxConcurrent (rq w)"
    "process w =
       w\<lparr>rq := (rq w)\<lparr>activeRequests := activeRequests (rq w) + 1, queue := es,
                        requestTimestamps :=
                          filter (\<lambda>ts. clock w - 1000 < ts) (requestTimestamps (rq w)) @ [clock w]\<rparr>,
         inflight := inflight w @ [(e, Ready)],
         events := events w @ [Dequeued (pid e), Cleared (pid e) (clock w)]\<rparr>"
    "int (length (filter (\<lambda>ts. clock w - 1000 < ts) (requestTimestamps (rq w))))
       < max 1 (requestsPerSecond (rq w))"
  | (asleep) e es d where
    "queue (rq w) = e # es"
    "activeRequests (rq w) < maxConcurrent (rq w)"
    "process w =
       w\<lparr>rq := (rq w)\<lparr>activeRequests := activeRequests (rq w) + 1, queue := es,
                        requestTimestamps :=
                          filter (\<lambda>ts. clock w - 1000 < ts) (requestTimestamps (rq w))\<rparr>,
         inflight := inflight w @ [(e, Sleeping (clock w + d))],
         events := events w @ [Dequeued (pid e)]\<rparr>"
    "0 < d"
    "requestsPerSecond (rq w)
       \<le> int (length (filter (\<lambda>ts. clock w - 1000 < ts) (requestTimestamps (rq w))))"
    "filter (\<lambda>ts. clock w - 1000 < ts) (requestTimestamps (rq w)) \<noteq> []"
    "d = hd (filter (\<lambda>ts. clock w - 1000 < ts) (requestTimestamps (rq w))) + 1000 - clock w"
proof (cases "maxConcurrent (rq w) \<le> activeRequests (rq w) \<or> queue (rq w) = []")
  case True
  then show ?thesis using idle by (simp add: process_def)
next
  case False
  then obtain e es where q: "queue (rq w) = e # es" by (cases "queue (rq w)") auto
  let ?w1 = "w\<lparr>rq := (rq w)\<lparr>activeRequests := activeRequests (rq w) + 1, queue := es\<rparr>,
                events := events w @ [Dequeued (pid e)]\<rparr>"
  have p: "process w = (case requestClearance (pid e) ?w1 of
                          (ph, w2) \<Rightarrow> w2\<lparr>inflight := inflight w2 @ [(e, ph)]\<rparr>)"
    using False q by (simp add: process_def Let_def)
  show ?thesis
  proof (cases rule: requestClearance_cases [of "pid e" ?w1])
    case granted
    show ?thesis
      using False q granted(2) by (intro cleared [of e es]) (auto simp: p granted(1))
  next
    case (suspended d)
    show ?thesis
      using False q suspended(2-) by (intro asleep [of e es d]) (auto simp: p suspended(1))
  qed
qed

lemma pids_of_set_phase [simp]: "pids_of (set_phase p ph xs) = pids_of xs"
  by (induction xs) (auto simp: pids_of_def set_phase_def)

lemma length_set_phase [simp]: "length (set_phase p ph xs) = length xs"
  by (simp add: set_phase_def)

lemma pids_of_finished: "pids_of (finished p xs) = filter (\<lambda>q. q \<noteq> p) (pids_of xs)"
  by (induction xs) (auto simp: pids_of_def finished_def)

lemma pids_of_append [simp]: "pids_of (xs @ ys) = pids_of xs @ pids_of ys"
  by (simp add: pids_of_def)

lemma pids_of_single [simp]: "pids_of [(e, ph)] = [pid e]"
  by (simp add: pids_of_def)

lemma lookup_Some: "lookup p xs = Some (e, ph) \<Longrightarrow> pid e = p \<and> (e, ph) \<in> set xs"
  by (induction xs) (auto split: if_splits)

lemma lookup_in_pids: "lookup p xs = Some x \<Longrightarrow> p \<in> set (pids_of xs)"
  by (induction xs) (auto simp: pids_of_def split: if_splits)

lemma length_finished:
  "distinct (pids_of xs) \<Longrightarrow> p \<in> set (pids_of xs) \<Longrightarrow> Suc (length (finished p xs)) = length xs"
proof (induction xs)
  case Nil
  then show ?case by (simp add: pids_of_def)
next
  case (Cons x xs)
  show ?case
  proof (cases "pid (fst x) = p")
    case True
    with Cons.prems have "p \<notin> set (pids_of xs)" by (simp add: pids_of_def)
    then have "finished p xs = xs"
      by (auto simp: finished_def pids_of_def filter_id_conv)
    with True show ?thesis by (simp add: finished_def)
  next
    case False
    with Cons show ?thesis by (auto simp: finished_def pids_of_def)
  qed
qed


lemma timerFires_cases:
  fixes w :: "('f, 'e, 'v) world"
  assumes "timerFires p w = Some w'"
  obtains (cleared) e due where
    "lookup p (inflight w) = Some (e, Sleeping due)"
    "due \<le> clock w"
    "w' = w\<lparr>rq := (rq w)\<lparr>requestTimestamps :=
                     filter (\<lambda>ts. clock w - 1000 < ts) (requestTimestamps (rq w)) @ [clock w]\<rparr>,
             inflight := set_phase p Ready (inflight w),
             events := events w @ [Cleared p (clock w)]\<rparr>"
    "int (length (filter (\<lambda>ts. clock w - 1000 < ts) (requestTimestamps (rq w))))
       < max 1 (requestsPerSecond (rq w))"
  | (asleep) e due d where
    "lookup p (inflight w) = Some (e, Sleeping due)"
    "due \<le> clock w"
    "w' = w\<lparr>rq := (rq w)\<lparr>requestTimestamps :=
                     filter (\<lambda>ts. clock w - 1000 < ts) (requestTimestamps (rq w))\<rparr>,
             inflight := set_phase p (Sleeping (clock w + d)) (inflight w)\<rparr>"
    "0 < d"
    "requestsPerSecond (rq w)
       \<le> int (length (filter (\<lambda>ts. clock w - 1000 < ts) (requestTimestamps (rq w))))"
    "filter (\<lambda>ts. clock w - 1000 < ts) (requestTimestamps (rq w)) \<noteq> []"
    "d = hd (filter (\<lambda>ts. clock w - 1000 < ts) (requestTimestamps (rq w))) + 1000 - clock w"
proof -
  from assms obtain e due where sl: "lookup p (inflight w) = Some (e, Sleeping due)" "due \<le> clock w"
    by (auto simp: timerFires_def split: option.splits phase.splits if_splits)
  then have w': "w' = (case requestClearance p w of
                         (ph, w1) \<Rightarrow> w1\<lparr>inflight := set_phase p ph (inflight w1)\<rparr>)"
    using assms by (auto simp: timerFires_def split: prod.splits)
  show ?thesis
  proof (cases rule: requestClearance_cases [of p w])
    case granted
    show ?thesis using sl granted(2) by (intro cleared [of e due]) (auto simp: w' granted(1))
  next
    case (suspended d)
    show ?thesis using sl suspended(2-) by (intro asleep [of e due d]) (auto simp: w' suspended(1))
  qed
qed

lemma resume_result:
  "resume p w = Some w' \<Longrightarrow>
   \<exists>e. lookup p (inflight w) = Some (e, Ready) \<and>
       w' = w\<lparr>inflight := set_phase p Running (inflight w),
              events := events w @ [Invoked p (fn e)]\<rparr>"
  by (auto simp: resume_def split: option.splits phase.splits)

lemma settles_result:
  "settles p outcome w = Some w' \<Longrightarrow>
   \<exists>e. lookup p (inflight w) = Some (e, Running) \<and>
       w' = process (w\<lparr>rq := (rq w)\<lparr>activeRequests := activeRequests (rq w) - 1\<rparr>,
                       inflight := finished p (inflight w),
                       events := events w @
                         [case outcome of Inr result \<Rightarrow> Resolved p result
                                        | Inl error \<Rightarrow> Rejected p error,
                          Released p]\<rparr>)"
  by (auto simp: settles_def Let_def split: option.splits phase.splits)

lemma length_filter_imp:
  "(\<And>x. x \<in> set xs \<Longrightarrow> P x \<Longrightarrow> Q x) \<Longrightarrow> length (filter P xs) \<le> length (filter Q xs)"
  by (induction xs) auto

lemma filter_cutoff_mono:
  fixes c :: int
  assumes "c \<le> c'" "filter (\<lambda>ts. c < ts) xs = filter (\<lambda>ts. c < ts) ys"
  shows "filter (\<lambda>ts. c' < ts) xs = filter (\<lambda>ts. c' < ts) ys"
proof -
  have "filter (\<lambda>ts. c' < ts) zs = filter (\<lambda>ts. c' < ts) (filter (\<lambda>ts. c < ts) zs)" for zs
    using assms(1) by (induction zs) auto
  from this [of xs] this [of ys] assms(2) show ?thesis by simp
qed

lemma rate_ok_tick: "rate_ok r c log starts \<Longrightarrow> c \<le> c' \<Longrightarrow> rate_ok r c' log starts"
  unfolding rate_ok_def
  using filter_cutoff_mono [of "c - 1000" "c' - 1000" log starts] by force

lemma rate_ok_prune:
  "rate_ok r c log starts \<Longrightarrow> rate_ok r c (filter (\<lambda>ts. c - 1000 < ts) log) starts"
  unfolding rate_ok_def by simp

lemma rate_ok_grant:
  assumes ok: "rate_ok r c log starts"
    and room: "int (length (filter (\<lambda>ts. c - 1000 < ts) log)) < max 1 r"
  shows "rate_ok r c (filter (\<lambda>ts. c - 1000 < ts) log @ [c]) (starts @ [c])"
proof -
  from ok have le: "\<forall>ts \<in> set starts. ts \<le> c"
    and same: "filter (\<lambda>ts. c - 1000 < ts) log = filter (\<lambda>ts. c - 1000 < ts) starts"
    and win: "\<And>t. int (length (filter (\<lambda>s. t - 1000 < s \<and> s \<le> t) starts)) \<le> max 1 r"
    by (auto simp: rate_ok_def)
  have "int (length (filter (\<lambda>s. t - 1000 < s \<and> s \<le> t) (starts @ [c]))) \<le> max 1 r" for t
  proof (cases "c \<le> t")
    case False
    then show ?thesis using win [of t] by simp
  next
    case True
    have "length (filter (\<lambda>s. t - 1000 < s \<and> s \<le> t) starts)
            \<le> length (filter (\<lambda>ts. c - 1000 < ts) starts)"
      using True by (intro length_filter_imp) auto
    with room same show ?thesis by simp
  qed
  with le same show ?thesis by (simp add: rate_ok_def)
qed


lemma start_times_append [simp]: "start_times (xs @ ys) = start_times xs @ start_times ys"
  by (simp add: start_times_def)

lemma start_times_simps [simp]:
  "start_times [] = []"
  "start_times (Cleared p ts # evs) = ts # start_times evs"
  "start_times (Submitted p f # evs) = start_times evs"
  "start_times (Dequeued p # evs) = start_times evs"
  "start_times (Invoked p f # evs) = start_times evs"
  "start_times (Resolved p v # evs) = start_times evs"
  "start_times (Rejected p e # evs) = start_times evs"
  "start_times (Released p # evs) = start_times evs"
  by (simp_all add: start_times_def)

lemma rate_inv_process: "rate_inv w \<Longrightarrow> rate_inv (process w)"
proof (cases rule: process_cases [of w])
  case idle
  assume "rate_inv w"
  then show ?thesis by (simp add: idle)
next
  case (cleared e es)
  assume "rate_inv w"
  then show ?thesis
    using rate_ok_grant [OF _ cleared(4), of "start_times (events w)"]
    by (simp add: rate_inv_def cleared(3))
next
  case (asleep e es d)
  assume "rate_inv w"
  then show ?thesis
    by (simp add: rate_inv_def asleep(3) rate_ok_prune)
qed

lemma rate_inv_step:
  assumes "rate_inv w" "step a w = Some w'"
  shows "rate_inv w'"
proof (cases a)
  case (Add f)
  have "rate_inv (w\<lparr>promises := promises w + 1,
                 rq := (rq w)\<lparr>queue := queue (rq w) @ [\<lparr>fn = f, pid = promises w\<rparr>]\<rparr>,
                 events := events w @ [Submitted (promises w) f]\<rparr>)"
    using assms(1) by (simp add: rate_inv_def)
  then show ?thesis
    using assms(2) Add by (auto simp: add_def Let_def intro: rate_inv_process)
next
  case (Tick d)
  then show ?thesis
    using assms rate_ok_tick [of _ "clock w" _ _ "clock w + int d"]
    by (auto simp: rate_inv_def)
next
  case (TimerFires p)
  with assms(2) have "timerFires p w = Some w'" by simp
  then show ?thesis
  proof (cases rule: timerFires_cases)
    case (cleared e due)
    show ?thesis
      using assms(1) rate_ok_grant [OF _ cleared(4), of "start_times (events w)"]
      by (simp add: rate_inv_def cleared(3))
  next
    case (asleep e due d)
    show ?thesis
      using assms(1) by (simp add: rate_inv_def asleep(3) rate_ok_prune)
  qed
next
  case (Resume p)
  with assms(2) have "resume p w = Some w'" by simp
  from resume_result [OF this] assms(1) show ?thesis
    by (auto simp: rate_inv_def)
next
  case (Settles p outcome)
  with assms(2) have "settles p outcome w = Some w'" by simp
  from settles_result [OF this] obtain e where
    w': "w' = process (w\<lparr>rq := (rq w)\<lparr>activeRequests := activeRequests (rq w) - 1\<rparr>,
                       inflight := finished p (inflight w),
                       events := events w @
                         [case outcome of Inr result \<Rightarrow> Resolved p result
                                        | Inl error \<Rightarrow> Rejected p error,
                          Released p]\<rparr>)"
    by blast
  have "rate_inv (w\<lparr>rq := (rq w)\<lparr>activeRequests := activeRequests (rq w) - 1\<rparr>,
                       inflight := finished p (inflight w),
                       events := events w @
                         [case outcome of Inr result \<Rightarrow> Resolved p result
                                        | Inl error \<Rightarrow> Rejected p error,
                          Released p]\<rparr>)"
    using assms(1) by (cases outcome) (simp_all add: rate_inv_def)
  then show ?thesis unfolding w' by (rule rate_inv_process)
qed

lemma rate_inv_boot: "rate_inv (boot t0 m r)"
  by (simp add: rate_inv_def rate_ok_def boot_def constructor_def)

lemma process_limits:
  "maxConcurrent (rq (process w)) = maxConcurrent (rq w) \<and>
   requestsPerSecond (rq (process w)) = requestsPerSecond (rq w) \<and>
   clock (process w) = clock w \<and> promises (process w) = promises w"
  by (cases rule: process_cases [of w]) simp_all

lemma step_limits:
  assumes "step a w = Some w'"
  shows "maxConcurrent (rq w') = maxConcurrent (rq w) \<and>
         requestsPerSecond (rq w') = requestsPerSecond (rq w)"
proof (cases a)
  case (Add f)
  with assms show ?thesis by (auto simp: add_def Let_def process_limits)
next
  case (Tick d)
  with assms show ?thesis by auto
next
  case (TimerFires p)
  with assms have "timerFires p w = Some w'" by simp
  then show ?thesis by (cases rule: timerFires_cases) simp_all
next
  case (Resume p)
  with assms have "resume p w = Some w'" by simp
  from resume_result [OF this] show ?thesis by auto
next
  case (Settles p outcome)
  with assms have "settles p outcome w = Some w'" by simp
  from settles_result [OF this] show ?thesis by (auto simp: process_limits)
qed

lemma exec_limits:
  "exec acts w0 = Some w \<Longrightarrow>
   maxConcurrent (rq w) = maxConcurrent (rq w0) \<and>
   requestsPerSecond (rq w) = requestsPerSecond (rq w0)"
  by (induction acts arbitrary: w0) (auto split: option.splits dest: step_limits)

lemma lookup_set_phase:
  "lookup p xs = Some (e, ph0) \<Longrightarrow> lookup p (set_phase p ph xs) = Some (e, ph)"
  by (induction xs) (auto simp: set_phase_def)

subsection \<open>The invariants hold in every run\<close>

lemmas history_defs =
  submitted_pids_def dequeued_pids_def invoked_pids_def settled_pids_def

lemma Cons_eq_upt_D: "x # xs = [k ..< n] \<Longrightarrow> x = k \<and> k < n \<and> xs = [Suc k ..< n]"
  by (auto simp: upt_eq_Cons_conv dest: sym)

lemma ids_inv_dispatch:
  assumes inv: "ids_inv w" and q: "queue (rq w) = e # es"
    and w': "rq w' = (rq w)\<lparr>activeRequests := a, queue := es, requestTimestamps := ts\<rparr>"
       "inflight w' = inflight w @ [(e, ph)]" "promises w' = promises w"
       "events w' = events w @ Dequeued (pid e) # evs"
       "dequeued_pids evs = []" "submitted_pids evs = []" "settled_pids evs = []"
  shows "ids_inv w'"
proof -
  from inv obtain k where k: "k \<le> promises w" "dequeued_pids (events w) = [0 ..< k]"
    "map pid (queue (rq w)) = [k ..< promises w]"
    "submitted_pids (events w) = [0 ..< promises w]"
    "distinct (pids_of (inflight w) @ settled_pids (events w))"
    "set (pids_of (inflight w)) \<union> set (settled_pids (events w)) = {0 ..< k}"
    unfolding ids_inv_def by blast
  from k(3) q have e: "pid e = k" "k < promises w" "map pid es = [Suc k ..< promises w]"
    by (auto dest: Cons_eq_upt_D)
  from k(6) have fresh: "k \<notin> set (pids_of (inflight w))" "k \<notin> set (settled_pids (events w))"
    by auto
  have app: "dequeued_pids (xs @ ys) = dequeued_pids xs @ dequeued_pids ys"
    "submitted_pids (xs @ ys) = submitted_pids xs @ submitted_pids ys"
    "settled_pids (xs @ ys) = settled_pids xs @ settled_pids ys"
    for xs ys :: "('f, 'e, 'v) event list"
    by (simp_all add: history_defs)
  have one: "dequeued_pids (Dequeued p # evs) = [p]"
    "submitted_pids (Dequeued p # evs) = []"
    "settled_pids (Dequeued p # evs) = []" for p
    using w'(5-7) by (simp_all add: history_defs)
  have "Suc k \<le> promises w'" using e w' by simp
  moreover have "dequeued_pids (events w') = [0 ..< Suc k]"
    using k(2) e(1) by (simp add: w'(4) app one)
  moreover have "map pid (queue (rq w')) = [Suc k ..< promises w']"
    using e by (simp add: w')
  moreover have "submitted_pids (events w') = [0 ..< promises w']"
    using k(4) by (simp add: w' app one)
  moreover have "distinct (pids_of (inflight w') @ settled_pids (events w'))"
    using k(5) fresh e(1) by (simp add: w' app one)
  moreover have "set (pids_of (inflight w')) \<union> set (settled_pids (events w')) = {0 ..< Suc k}"
    using k(6) e(1) by (auto simp: w' app one less_Suc_eq)
  ultimately show ?thesis unfolding ids_inv_def by blast
qed

lemma ids_inv_process:
  assumes "ids_inv w"
  shows "ids_inv (process w)"
proof (cases rule: process_cases [of w])
  case idle
  with assms show ?thesis by simp
next
  case (cleared e es)
  show ?thesis
    by (rule ids_inv_dispatch [OF assms cleared(1), where evs = "[Cleared (pid e) (clock w)]"])
       (simp_all add: cleared(3) history_defs)
next
  case (asleep e es d)
  show ?thesis
    by (rule ids_inv_dispatch [OF assms asleep(1), where evs = "[]"])
       (simp_all add: asleep(3) history_defs)
qed


lemma ids_inv_frame:
  assumes "ids_inv w"
    "promises w' = promises w"
    "map pid (queue (rq w')) = map pid (queue (rq w))"
    "pids_of (inflight w') = pids_of (inflight w)"
    "dequeued_pids (events w') = dequeued_pids (events w)"
    "submitted_pids (events w') = submitted_pids (events w)"
    "settled_pids (events w') = settled_pids (events w)"
  shows "ids_inv w'"
  using assms by (simp add: ids_inv_def)

lemma ids_inv_add:
  assumes "ids_inv w"
  shows "ids_inv (w\<lparr>promises := promises w + 1,
                 rq := (rq w)\<lparr>queue := queue (rq w) @ [\<lparr>fn = f, pid = promises w\<rparr>]\<rparr>,
                 events := events w @ [Submitted (promises w) f]\<rparr>)"
proof -
  from assms obtain k where k: "k \<le> promises w" "dequeued_pids (events w) = [0 ..< k]"
    "map pid (queue (rq w)) = [k ..< promises w]"
    "submitted_pids (events w) = [0 ..< promises w]"
    "distinct (pids_of (inflight w) @ settled_pids (events w))"
    "set (pids_of (inflight w)) \<union> set (settled_pids (events w)) = {0 ..< k}"
    unfolding ids_inv_def by blast
  show ?thesis
    unfolding ids_inv_def
    by (rule exI [of _ k]) (use k in \<open>simp add: history_defs\<close>)
qed

lemma ids_inv_settle:
  assumes "ids_inv w" and "lookup p (inflight w) = Some x"
    and "settled_pids evs = [p]" "dequeued_pids evs = []" "submitted_pids evs = []"
  shows "ids_inv (w\<lparr>rq := (rq w)\<lparr>activeRequests := a\<rparr>,
                 inflight := finished p (inflight w),
                 events := events w @ evs\<rparr>)"
proof -
  from assms(1) obtain k where k: "k \<le> promises w" "dequeued_pids (events w) = [0 ..< k]"
    "map pid (queue (rq w)) = [k ..< promises w]"
    "submitted_pids (events w) = [0 ..< promises w]"
    "distinct (pids_of (inflight w) @ settled_pids (events w))"
    "set (pids_of (inflight w)) \<union> set (settled_pids (events w)) = {0 ..< k}"
    unfolding ids_inv_def by blast
  have p: "p \<in> set (pids_of (inflight w))" using assms(2) by (rule lookup_in_pids)
  have app: "dequeued_pids (xs @ ys) = dequeued_pids xs @ dequeued_pids ys"
    "submitted_pids (xs @ ys) = submitted_pids xs @ submitted_pids ys"
    "settled_pids (xs @ ys) = settled_pids xs @ settled_pids ys"
    for xs ys :: "('f, 'e, 'v) event list"
    by (simp_all add: history_defs)
  have "distinct (filter (\<lambda>q. q \<noteq> p) (pids_of (inflight w)) @ settled_pids (events w) @ [p])"
    using k(5) p by auto
  moreover have "set (filter (\<lambda>q. q \<noteq> p) (pids_of (inflight w))) \<union> set (settled_pids (events w) @ [p]) = {0 ..< k}"
    using k(6) p by auto
  ultimately show ?thesis
    unfolding ids_inv_def
    by (intro exI [of _ k]) (use k assms(3-) in \<open>simp add: app pids_of_finished\<close>)
qed

lemma settle_events:
  "settled_pids [case outcome of Inr result \<Rightarrow> Resolved p result | Inl error \<Rightarrow> Rejected p error,
                 Released p :: ('f, 'e, 'v) event] = [p]"
  "dequeued_pids [case outcome of Inr result \<Rightarrow> Resolved p result | Inl error \<Rightarrow> Rejected p error,
                 Released p :: ('f, 'e, 'v) event] = []"
  "submitted_pids [case outcome of Inr result \<Rightarrow> Resolved p result | Inl error \<Rightarrow> Rejected p error,
                 Released p :: ('f, 'e, 'v) event] = []"
  by (cases outcome; simp add: history_defs)+

lemma ids_inv_step:
  assumes "ids_inv w" "step a w = Some w'"
  shows "ids_inv w'"
proof (cases a)
  case (Add f)
  then show ?thesis
    using assms(2) ids_inv_process [OF ids_inv_add [OF assms(1), of f]]
    by (auto simp: add_def Let_def)
next
  case (Tick d)
  with assms show ?thesis by (auto intro: ids_inv_frame)
next
  case (TimerFires p)
  with assms(2) have "timerFires p w = Some w'" by simp
  then show ?thesis
    by (cases rule: timerFires_cases)
       (rule ids_inv_frame [OF assms(1)]; simp add: history_defs)+
next
  case (Resume p)
  with assms(2) have "resume p w = Some w'" by simp
  from resume_result [OF this] obtain e where
    "lookup p (inflight w) = Some (e, Ready)"
    "w' = w\<lparr>inflight := set_phase p Running (inflight w), events := events w @ [Invoked p (fn e)]\<rparr>"
    by blast
  then show ?thesis
    by (intro ids_inv_frame [OF assms(1)]) (simp_all add: history_defs)
next
  case (Settles p outcome)
  with assms(2) have "settles p outcome w = Some w'" by simp
  from settles_result [OF this] obtain e where
    e: "lookup p (inflight w) = Some (e, Running)" and
    w': "w' = process (w\<lparr>rq := (rq w)\<lparr>activeRequests := activeRequests (rq w) - 1\<rparr>,
                       inflight := finished p (inflight w),
                       events := events w @
                         [case outcome of Inr result \<Rightarrow> Resolved p result
                                        | Inl error \<Rightarrow> Rejected p error,
                          Released p]\<rparr>)"
    by blast
  show ?thesis
    unfolding w'
    by (intro ids_inv_process ids_inv_settle [OF assms(1) e] settle_events)
qed

lemma ids_inv_boot: "ids_inv (boot t0 m r)"
  by (simp add: ids_inv_def boot_def constructor_def history_defs pids_of_def)

lemma count_inv_process: "count_inv w \<Longrightarrow> count_inv (process w)"
  by (cases rule: process_cases [of w]) (auto simp: count_inv_def)

lemma count_inv_step:
  assumes "ids_inv w" "count_inv w" "step a w = Some w'"
  shows "count_inv w'"
proof (cases a)
  case (Add f)
  have "count_inv (w\<lparr>promises := promises w + 1,
                 rq := (rq w)\<lparr>queue := queue (rq w) @ [\<lparr>fn = f, pid = promises w\<rparr>]\<rparr>,
                 events := events w @ [Submitted (promises w) f]\<rparr>)"
    using assms(2) by (simp add: count_inv_def)
  then show ?thesis
    using assms(3) Add by (auto simp: add_def Let_def intro: count_inv_process)
next
  case (Tick d)
  with assms show ?thesis by (auto simp: count_inv_def)
next
  case (TimerFires p)
  with assms(3) have "timerFires p w = Some w'" by simp
  then show ?thesis
    using assms(2) by (cases rule: timerFires_cases) (simp_all add: count_inv_def)
next
  case (Resume p)
  with assms(3) have "resume p w = Some w'" by simp
  from resume_result [OF this] assms(2) show ?thesis
    by (auto simp: count_inv_def)
next
  case (Settles p outcome)
  with assms(3) have "settles p outcome w = Some w'" by simp
  from settles_result [OF this] obtain e where
    e: "lookup p (inflight w) = Some (e, Running)" and
    w': "w' = process (w\<lparr>rq := (rq w)\<lparr>activeRequests := activeRequests (rq w) - 1\<rparr>,
                       inflight := finished p (inflight w),
                       events := events w @
                         [case outcome of Inr result \<Rightarrow> Resolved p result
                                        | Inl error \<Rightarrow> Rejected p error,
                          Released p]\<rparr>)"
    by blast
  from assms(1) have "distinct (pids_of (inflight w))" by (auto simp: ids_inv_def)
  from length_finished [OF this lookup_in_pids [OF e]]
  have "count_inv (w\<lparr>rq := (rq w)\<lparr>activeRequests := activeRequests (rq w) - 1\<rparr>,
                       inflight := finished p (inflight w),
                       events := events w @
                         [case outcome of Inr result \<Rightarrow> Resolved p result
                                        | Inl error \<Rightarrow> Rejected p error,
                          Released p]\<rparr>)"
    using assms(2) by (auto simp: count_inv_def)
  then show ?thesis unfolding w' by (rule count_inv_process)
qed

lemma count_inv_boot: "count_inv (boot t0 m r)"
  by (simp add: count_inv_def boot_def constructor_def)

lemma idle_inv_process:
  "(tl (queue (rq w)) \<noteq> [] \<longrightarrow> maxConcurrent (rq w) \<le> activeRequests (rq w) + 1)
   \<Longrightarrow> idle_inv (process w)"
  by (cases rule: process_cases [of w]) (auto simp: idle_inv_def)

lemma idle_inv_step:
  assumes "idle_inv w" "step a w = Some w'"
  shows "idle_inv w'"
proof (cases a)
  case (Add f)
  have "idle_inv (process (w\<lparr>promises := promises w + 1,
                 rq := (rq w)\<lparr>queue := queue (rq w) @ [\<lparr>fn = f, pid = promises w\<rparr>]\<rparr>,
                 events := events w @ [Submitted (promises w) f]\<rparr>))"
    using assms(1) by (intro idle_inv_process) (auto simp: idle_inv_def)
  then show ?thesis
    using assms(2) Add by (auto simp: add_def Let_def)
next
  case (Tick d)
  with assms show ?thesis by (auto simp: idle_inv_def)
next
  case (TimerFires p)
  with assms(2) have "timerFires p w = Some w'" by simp
  then show ?thesis
    using assms(1) by (cases rule: timerFires_cases) (simp_all add: idle_inv_def)
next
  case (Resume p)
  with assms(2) have "resume p w = Some w'" by simp
  from resume_result [OF this] assms(1) show ?thesis
    by (auto simp: idle_inv_def)
next
  case (Settles p outcome)
  with assms(2) have "settles p outcome w = Some w'" by simp
  from settles_result [OF this] obtain e where
    w': "w' = process (w\<lparr>rq := (rq w)\<lparr>activeRequests := activeRequests (rq w) - 1\<rparr>,
                       inflight := finished p (inflight w),
                       events := events w @
                         [case outcome of Inr result \<Rightarrow> Resolved p result
                                        | Inl error \<Rightarrow> Rejected p error,
                          Released p]\<rparr>)"
    by blast
  show ?thesis
    unfolding w' using assms(1)
    by (intro idle_inv_process) (auto simp: idle_inv_def)
qed

lemma idle_inv_boot: "idle_inv (boot t0 m r)"
  by (simp add: idle_inv_def boot_def constructor_def)

lemma exec_invs:
  assumes "exec acts (boot t0 m r) = Some w"
  shows "ids_inv w \<and> count_inv w \<and> idle_inv w"
  using assms
proof (rule exec_invariant)
  show "ids_inv (boot t0 m r) \<and> count_inv (boot t0 m r) \<and> idle_inv (boot t0 m r)"
    by (simp add: ids_inv_boot count_inv_boot idle_inv_boot)
next
  fix a and u u' :: "('a, 'b, 'c) world"
  assume "ids_inv u \<and> count_inv u \<and> idle_inv u" "step a u = Some u'"
  then show "ids_inv u' \<and> count_inv u' \<and> idle_inv u'"
    by (auto intro: ids_inv_step count_inv_step idle_inv_step)
qed

subsection \<open>The scheduler finishes all work\<close>

lemma weight_le: "weight ph \<le> 3"
  by (cases ph) auto

lemma work_process: "work (process w) \<le> work w"
  by (cases rule: process_cases [of w]) (auto simp: work_def)

lemma lookup_distinct:
  "distinct (pids_of xs) \<Longrightarrow> x \<in> set xs \<Longrightarrow> lookup (pid (fst x)) xs = Some x"
  by (induction xs) (auto simp: pids_of_def)

lemma weight_set_phase:
  "distinct (pids_of xs) \<Longrightarrow> lookup p xs = Some (e, ph) \<Longrightarrow>
   sum_list (map (\<lambda>x. weight (snd x)) (set_phase p ph' xs)) + weight ph
     = sum_list (map (\<lambda>x. weight (snd x)) xs) + weight ph'"
proof (induction xs)
  case Nil
  then show ?case by simp
next
  case (Cons x xs)
  show ?case
  proof (cases "pid (fst x) = p")
    case True
    with Cons.prems have "p \<notin> set (pids_of xs)" by (simp add: pids_of_def)
    then have "set_phase p ph' xs = xs"
      by (induction xs) (auto simp: set_phase_def pids_of_def)
    with True Cons.prems show ?thesis by (simp add: set_phase_def)
  next
    case False
    with Cons show ?thesis by (auto simp: set_phase_def pids_of_def)
  qed
qed

lemma weight_finished:
  "distinct (pids_of xs) \<Longrightarrow> lookup p xs = Some (e, ph) \<Longrightarrow>
   sum_list (map (\<lambda>x. weight (snd x)) (finished p xs)) + weight ph
     = sum_list (map (\<lambda>x. weight (snd x)) xs)"
proof (induction xs)
  case Nil
  then show ?case by simp
next
  case (Cons x xs)
  show ?case
  proof (cases "pid (fst x) = p")
    case True
    with Cons.prems have "p \<notin> set (pids_of xs)" by (simp add: pids_of_def)
    then have "finished p xs = xs"
      by (auto simp: finished_def pids_of_def filter_id_conv)
    with True Cons.prems show ?thesis by (simp add: finished_def)
  next
    case False
    with Cons show ?thesis by (auto simp: finished_def pids_of_def)
  qed
qed

lemma foldr_max_ge: "(b::int) \<le> foldr max xs b \<and> (\<forall>x \<in> set xs. x \<le> foldr max xs b)"
  by (induction xs) auto

lemma scheduler_done: "scheduler out w = [] \<Longrightarrow> inflight w = []"
proof (rule ccontr)
  assume fin: "scheduler out w = []" and "inflight w \<noteq> []"
  then obtain x xs where x: "inflight w = x # xs" by (cases "inflight w") auto
  show False
  proof (cases "snd x")
    case (Sleeping due)
    with fin x show False
      by (auto simp: scheduler_def split: option.splits)
  next
    case Ready
    with x have "find (\<lambda>x. snd x = Ready) (inflight w) \<noteq> None"
      by (simp add: find_None_iff)
    with fin show False by (auto simp: scheduler_def split: option.splits)
  next
    case Running
    with x have "find (\<lambda>x. snd x = Running) (inflight w) \<noteq> None"
      by (simp add: find_None_iff)
    with fin show False by (auto simp: scheduler_def split: option.splits)
  qed
qed


lemma timerFires_enabled:
  "lookup p (inflight w) = Some (e, Sleeping due) \<Longrightarrow> due \<le> clock w \<Longrightarrow>
   \<exists>w'. timerFires p w = Some w'"
  by (auto simp: timerFires_def split: prod.splits)

lemma find_Some_D: "find P xs = Some x \<Longrightarrow> x \<in> set xs \<and> P x"
  by (auto simp: find_Some_iff)

lemma scheduler_round:
  fixes w :: "('f, 'e, 'v) world"
  assumes ids: "ids_inv w" and busy: "scheduler out w \<noteq> []"
  shows "\<exists>w'. exec (scheduler out w) w = Some w' \<and> work w' < work w
            \<and> list_all (quiet out) (scheduler out w)"
proof -
  from ids have d: "distinct (pids_of (inflight w))" by (auto simp: ids_inv_def)
  show ?thesis
  proof (cases "find (\<lambda>x. snd x = Ready) (inflight w)")
    case (Some x)
    then have x: "x \<in> set (inflight w)" "snd x = Ready" by (auto dest: find_Some_D)
    have l: "lookup (pid (fst x)) (inflight w) = Some (fst x, Ready)"
      using lookup_distinct [OF d x(1)] x(2) by (metis prod.collapse)
    have s: "scheduler out w = [Resume (pid (fst x))]"
      using Some by (simp add: scheduler_def)
    have "work (w\<lparr>inflight := set_phase (pid (fst x)) Running (inflight w),
                   events := events w @ [Invoked (pid (fst x)) (fn (fst x))]\<rparr>) < work w"
      using weight_set_phase [OF d l, of Running] by (simp add: work_def)
    then show ?thesis
      using l by (simp add: s resume_def quiet_def)
  next
    case None
    note no_ready = None
    show ?thesis
    proof (cases "find (\<lambda>x. snd x = Running) (inflight w)")
      case (Some x)
      then have x: "x \<in> set (inflight w)" "snd x = Running" by (auto dest: find_Some_D)
      have l: "lookup (pid (fst x)) (inflight w) = Some (fst x, Running)"
        using lookup_distinct [OF d x(1)] x(2) by (metis prod.collapse)
      have s: "scheduler out w = [Settles (pid (fst x)) (out (pid (fst x)))]"
        using Some no_ready by (simp add: scheduler_def)
      let ?w2 = "w\<lparr>rq := (rq w)\<lparr>activeRequests := activeRequests (rq w) - 1\<rparr>,
                    inflight := finished (pid (fst x)) (inflight w),
                    events := events w @
                      [case out (pid (fst x)) of Inr result \<Rightarrow> Resolved (pid (fst x)) result
                                               | Inl error \<Rightarrow> Rejected (pid (fst x)) error,
                       Released (pid (fst x))]\<rparr>"
      have "work ?w2 < work w"
        using weight_finished [OF d l] by (simp add: work_def)
      with work_process [of ?w2] have "work (process ?w2) < work w" by simp
      moreover have "settles (pid (fst x)) (out (pid (fst x))) w = Some (process ?w2)"
        using l by (simp add: settles_def)
      ultimately show ?thesis by (simp add: s quiet_def)
    next
      case None
      from busy obtain x xs where x: "inflight w = x # xs"
        using None no_ready by (cases "inflight w") (auto simp: scheduler_def)
      from busy obtain due where due: "snd x = Sleeping due"
        using None no_ready x by (cases "snd x") (auto simp: scheduler_def)
      let ?T = "foldr max (map (\<lambda>ts. ts + 1000) (requestTimestamps (rq w))) (max due (clock w))"
      let ?wt = "w\<lparr>clock := clock w + int (nat (?T - clock w))\<rparr>"
      have s: "scheduler out w = [Tick (nat (?T - clock w)), TimerFires (pid (fst x))]"
        using None no_ready x due by (simp add: scheduler_def)
      have T: "max due (clock w) \<le> ?T" "\<forall>ts \<in> set (requestTimestamps (rq w)). ts + 1000 \<le> ?T"
        using foldr_max_ge [of "max due (clock w)" "map (\<lambda>ts. ts + 1000) (requestTimestamps (rq w))"]
        by auto
      then have c: "clock ?wt = ?T" by simp
      have "lookup (pid (fst x)) (inflight ?wt) = Some x"
        using x by simp
      then have l: "lookup (pid (fst x)) (inflight ?wt) = Some (fst x, Sleeping due)"
        using due by (metis prod.collapse)
      have "due \<le> clock ?wt" using T(1) c by linarith
      from timerFires_enabled [OF l this] obtain w' where
        w': "timerFires (pid (fst x)) ?wt = Some w'" by blast
      have empty: "filter (\<lambda>ts. clock ?wt - 1000 < ts) (requestTimestamps (rq ?wt)) = []"
        using T(2) unfolding c by (auto simp: filter_empty_conv)
      from w' have "inflight w' = set_phase (pid (fst x)) Ready (inflight w)
                    \<and> queue (rq w') = queue (rq w)"
        using empty by (cases rule: timerFires_cases) auto
      then have "work w' < work w"
        using weight_set_phase [OF d, of "pid (fst x)" "fst x" "Sleeping due" Ready] l
        by (simp add: work_def)
      then show ?thesis using w' by (simp add: s quiet_def)
    qed
  qed
qed


lemma exec_invs_from:
  assumes "exec acts w = Some w'" "ids_inv w \<and> count_inv w \<and> idle_inv w"
  shows "ids_inv w' \<and> count_inv w' \<and> idle_inv w'"
  using assms
proof (rule exec_invariant)
  fix a and u u' :: "('a, 'b, 'c) world"
  assume "ids_inv u \<and> count_inv u \<and> idle_inv u" "step a u = Some u'"
  then show "ids_inv u' \<and> count_inv u' \<and> idle_inv u'"
    by (auto intro: ids_inv_step count_inv_step idle_inv_step)
qed

lemma step_quiet_promises:
  assumes "step a w = Some w'" "quiet out a"
  shows "promises w' = promises w"
proof (cases a)
  case (Add f)
  with assms show ?thesis by (simp add: quiet_def)
next
  case (Tick d)
  with assms show ?thesis by auto
next
  case (TimerFires p)
  with assms have "timerFires p w = Some w'" by simp
  then show ?thesis by (cases rule: timerFires_cases) simp_all
next
  case (Resume p)
  with assms have "resume p w = Some w'" by simp
  from resume_result [OF this] show ?thesis by auto
next
  case (Settles p outcome)
  with assms have "settles p outcome w = Some w'" by simp
  from settles_result [OF this] show ?thesis by (auto simp: process_limits)
qed

lemma exec_quiet_promises:
  "exec acts w = Some w' \<Longrightarrow> list_all (quiet out) acts \<Longrightarrow> promises w' = promises w"
  by (induction acts arbitrary: w) (auto split: option.splits dest: step_quiet_promises)

lemma drain_completes:
  fixes w :: "('f, 'e, 'v) world"
  assumes "ids_inv w \<and> count_inv w \<and> idle_inv w" "work w \<le> n"
  shows "\<exists>acts w'. drain out n w = Some w' \<and> exec acts w = Some w'
                  \<and> list_all (quiet out) acts \<and> inflight w' = []"
  using assms
proof (induction n arbitrary: w)
  case 0
  have "scheduler out w = []"
  proof (rule ccontr)
    assume "scheduler out w \<noteq> []"
    from scheduler_round [OF _ this] 0 show False by auto
  qed
  then have "drain out 0 w = Some w \<and> exec [] w = Some w \<and> list_all (quiet out) [] \<and> inflight w = []"
    by (simp add: scheduler_done)
  then show ?case by blast
next
  case (Suc n)
  show ?case
  proof (cases "scheduler out w = []")
    case True
    then have "drain out (Suc n) w = Some w \<and> exec [] w = Some w \<and> list_all (quiet out) [] \<and> inflight w = []"
      by (simp add: scheduler_done)
    then show ?thesis by blast
  next
    case False
    from Suc.prems have ids: "ids_inv w" by simp
    from scheduler_round [OF ids False] obtain w1 where
      w1: "exec (scheduler out w) w = Some w1" "work w1 < work w"
          "list_all (quiet out) (scheduler out w)"
      by blast
    from exec_invs_from [OF w1(1) Suc.prems(1)] w1(2) Suc.prems(2)
    have "ids_inv w1 \<and> count_inv w1 \<and> idle_inv w1" "work w1 \<le> n" by auto
    from Suc.IH [OF this] obtain acts w' where
      r: "drain out n w1 = Some w'" "exec acts w1 = Some w'" "list_all (quiet out) acts"
         "inflight w' = []"
      by blast
    have "drain out (Suc n) w = Some w'" using False w1(1) r(1) by simp
    moreover have "exec (scheduler out w @ acts) w = Some w'"
      using w1(1) r(2) by (simp add: exec_append)
    moreover have "list_all (quiet out) (scheduler out w @ acts)"
      using w1(3) r(3) by simp
    ultimately show ?thesis using r(4) by blast
  qed
qed

lemma work_bound: "work w \<le> 3 * (length (queue (rq w)) + length (inflight w))"
proof -
  have "sum_list (map (\<lambda>x. weight (snd x)) xs) \<le> 3 * length xs" for xs :: "('f entry \<times> phase) list"
    by (induction xs) (auto intro: add_mono weight_le)
  from this [of "inflight w"] show ?thesis by (simp add: work_def)
qed

lemma all_settled:
  assumes "ids_inv w \<and> count_inv w \<and> idle_inv w" "inflight w = []"
    "0 < maxConcurrent (rq w)"
  shows "queue (rq w) = [] \<and> distinct (settled_pids (events w))
       \<and> set (settled_pids (events w)) = {0 ..< promises w}"
proof -
  from assms have "activeRequests (rq w) = 0" by (simp add: count_inv_def)
  with assms have q: "queue (rq w) = []" by (auto simp: idle_inv_def)
  from assms(1) obtain k where k: "k \<le> promises w" "map pid (queue (rq w)) = [k ..< promises w]"
    "distinct (pids_of (inflight w) @ settled_pids (events w))"
    "set (pids_of (inflight w)) \<union> set (settled_pids (events w)) = {0 ..< k}"
    unfolding ids_inv_def by blast
  from q k(2) have "[k ..< promises w] = []" by simp
  with k(1) have "k = promises w" by auto
  with k(3,4) q assms(2) show ?thesis by (simp add: pids_of_def)
qed

lemma length_settled_with:
  "length (settled_with p evs) = count_list (settled_pids evs) p"
proof (induction evs)
  case Nil
  show ?case by (simp add: settled_with_def settled_pids_def)
next
  case (Cons ev evs)
  have "settled_with p (ev # evs) = settled_with p [ev] @ settled_with p evs"
    "settled_pids (ev # evs) = settled_pids [ev] @ settled_pids evs"
    by (simp_all add: settled_with_def settled_pids_def)
  moreover have "length (settled_with p [ev]) = count_list (settled_pids [ev]) p"
    by (cases ev) (simp_all add: settled_with_def settled_pids_def)
  ultimately show ?case using Cons by simp
qed

subsection \<open>Settlements, invocations and their order\<close>


lemma settled_with_append [simp]:
  "settled_with p (xs @ ys) = settled_with p xs @ settled_with p ys"
  by (simp add: settled_with_def)





lemma lookup_set_phase_other: "q \<noteq> p \<Longrightarrow> lookup q (set_phase p ph xs) = lookup q xs"
  by (induction xs) (auto simp: set_phase_def)

lemma lookup_finished_other: "q \<noteq> p \<Longrightarrow> lookup q (finished p xs) = lookup q xs"
  by (induction xs) (auto simp: finished_def)

lemma lookup_append_Some: "lookup q xs = Some x \<Longrightarrow> lookup q (xs @ ys) = Some x"
  by (induction xs) auto

lemma invoked_inv_frame:
  assumes "invoked_inv w"
    "invoked_pids (events w') = invoked_pids (events w)"
    "set (settled_pids (events w)) \<subseteq> set (settled_pids (events w'))"
    "\<And>q. map_option snd (lookup q (inflight w)) = Some Running \<Longrightarrow>
          map_option snd (lookup q (inflight w')) = Some Running \<or> q \<in> set (settled_pids (events w'))"
  shows "invoked_inv w'"
  using assms unfolding invoked_inv_def by (metis subsetD)

lemma invoked_inv_process: "invoked_inv w \<Longrightarrow> invoked_inv (process w)"
proof (cases rule: process_cases [of w])
  case idle
  assume "invoked_inv w"
  then show ?thesis by (simp add: idle)
next
  case (cleared e es)
  assume "invoked_inv w"
  then show ?thesis
    by (rule invoked_inv_frame) (auto simp: cleared(3) history_defs dest: lookup_append_Some)
next
  case (asleep e es d)
  assume "invoked_inv w"
  then show ?thesis
    by (rule invoked_inv_frame) (auto simp: asleep(3) history_defs dest: lookup_append_Some)
qed

lemma invoked_inv_step:
  assumes ids: "ids_inv w" and inv: "invoked_inv w" and st: "step a w = Some w'"
  shows "invoked_inv w'"
proof (cases a)
  case (Add f)
  have "invoked_inv (w\<lparr>promises := promises w + 1,
                 rq := (rq w)\<lparr>queue := queue (rq w) @ [\<lparr>fn = f, pid = promises w\<rparr>]\<rparr>,
                 events := events w @ [Submitted (promises w) f]\<rparr>)"
    using inv by (rule invoked_inv_frame) (simp_all add: history_defs)
  then show ?thesis
    using st Add by (auto simp: add_def Let_def intro: invoked_inv_process)
next
  case (Tick d)
  with st inv show ?thesis by (auto simp: invoked_inv_def)
next
  case (TimerFires p)
  with st have "timerFires p w = Some w'" by simp
  then show ?thesis
  proof (cases rule: timerFires_cases)
    case (cleared e due)
    show ?thesis
      using inv
    proof (rule invoked_inv_frame)
      fix q assume "map_option snd (lookup q (inflight w)) = Some Running"
      with cleared(1) have "q \<noteq> p" by auto
      then show "map_option snd (lookup q (inflight w')) = Some Running
                 \<or> q \<in> set (settled_pids (events w'))"
        using \<open>map_option snd (lookup q (inflight w)) = Some Running\<close>
        by (simp add: cleared(3) lookup_set_phase_other)
    qed (simp_all add: cleared(3) history_defs)
  next
    case (asleep e due d)
    show ?thesis
      using inv
    proof (rule invoked_inv_frame)
      fix q assume "map_option snd (lookup q (inflight w)) = Some Running"
      with asleep(1) have "q \<noteq> p" by auto
      then show "map_option snd (lookup q (inflight w')) = Some Running
                 \<or> q \<in> set (settled_pids (events w'))"
        using \<open>map_option snd (lookup q (inflight w)) = Some Running\<close>
        by (simp add: asleep(3) lookup_set_phase_other)
    qed (simp_all add: asleep(3) history_defs)
  qed
next
  case (Resume p)
  with st have "resume p w = Some w'" by simp
  from resume_result [OF this] obtain e where
    e: "lookup p (inflight w) = Some (e, Ready)" and
    w': "w' = w\<lparr>inflight := set_phase p Running (inflight w),
                 events := events w @ [Invoked p (fn e)]\<rparr>"
    by blast
  from ids have "distinct (pids_of (inflight w) @ settled_pids (events w))"
    by (auto simp: ids_inv_def)
  with lookup_in_pids [OF e] have "p \<notin> set (settled_pids (events w))" by auto
  with inv e have fresh: "p \<notin> set (invoked_pids (events w))"
    by (auto simp: invoked_inv_def)
  have inv': "invoked_pids (events w') = invoked_pids (events w) @ [p]"
    "settled_pids (events w') = settled_pids (events w)"
    by (simp_all add: w' history_defs)
  have "map_option snd (lookup q (inflight w')) = Some Running \<or> q \<in> set (settled_pids (events w'))"
    if "q \<in> set (invoked_pids (events w'))" for q
  proof (cases "q = p")
    case True
    then show ?thesis using lookup_set_phase [OF e, of Running] by (simp add: w')
  next
    case False
    from that False have "q \<in> set (invoked_pids (events w))" by (simp add: inv'(1))
    with inv have "map_option snd (lookup q (inflight w)) = Some Running
                   \<or> q \<in> set (settled_pids (events w))"
      by (simp add: invoked_inv_def)
    moreover have "lookup q (inflight w') = lookup q (inflight w)"
      using False by (simp add: w' lookup_set_phase_other)
    ultimately show ?thesis by (simp add: inv'(2))
  qed
  moreover have "distinct (invoked_pids (events w'))"
    using inv fresh by (simp add: inv' invoked_inv_def)
  ultimately show ?thesis by (simp add: invoked_inv_def)
next
  case (Settles p outcome)
  with st have "settles p outcome w = Some w'" by simp
  from settles_result [OF this] obtain e where
    w': "w' = process (w\<lparr>rq := (rq w)\<lparr>activeRequests := activeRequests (rq w) - 1\<rparr>,
                       inflight := finished p (inflight w),
                       events := events w @
                         [case outcome of Inr result \<Rightarrow> Resolved p result
                                        | Inl error \<Rightarrow> Rejected p error,
                          Released p]\<rparr>)"
    by blast
  have "invoked_inv (w\<lparr>rq := (rq w)\<lparr>activeRequests := activeRequests (rq w) - 1\<rparr>,
                       inflight := finished p (inflight w),
                       events := events w @
                         [case outcome of Inr result \<Rightarrow> Resolved p result
                                        | Inl error \<Rightarrow> Rejected p error,
                          Released p]\<rparr>)"
    using inv
  proof (rule invoked_inv_frame)
    fix q assume "map_option snd (lookup q (inflight w)) = Some Running"
    then show "map_option snd (lookup q (inflight (w\<lparr>rq := (rq w)\<lparr>activeRequests := activeRequests (rq w) - 1\<rparr>,
                       inflight := finished p (inflight w),
                       events := events w @
                         [case outcome of Inr result \<Rightarrow> Resolved p result
                                        | Inl error \<Rightarrow> Rejected p error,
                          Released p]\<rparr>))) = Some Running
         \<or> q \<in> set (settled_pids (events (w\<lparr>rq := (rq w)\<lparr>activeRequests := activeRequests (rq w) - 1\<rparr>,
                       inflight := finished p (inflight w),
                       events := events w @
                         [case outcome of Inr result \<Rightarrow> Resolved p result
                                        | Inl error \<Rightarrow> Rejected p error,
                          Released p]\<rparr>)))"
      by (cases "q = p"; cases outcome) (simp_all add: lookup_finished_other history_defs)
  qed (cases outcome; simp add: history_defs; blast)+
  then show ?thesis unfolding w' by (rule invoked_inv_process)
qed

lemma invoked_inv_boot: "invoked_inv (boot t0 m r)"
  by (simp add: invoked_inv_def boot_def history_defs)


lemma before_append:
  "before A B (xs @ ys) \<longleftrightarrow> before A B xs \<and> ((\<exists>x \<in> set xs. A x) \<or> before A B ys)"
  by (induction xs) auto

lemma is_dequeue_mem: "(\<exists>x \<in> set evs. is_dequeue p x) \<longleftrightarrow> p \<in> set (dequeued_pids evs)"
  by (induction evs) (auto simp: is_dequeue_def dequeued_pids_def split: event.splits)

lemmas is_defs = is_dequeue_def is_invoke_def is_settle_def is_release_def

lemma order_inv_process: "order_inv w \<Longrightarrow> order_inv (process w)"
  by (cases rule: process_cases [of w]) (auto simp: order_inv_def before_append is_defs)

lemma order_inv_step:
  assumes ids: "ids_inv w" and inv: "order_inv w" and st: "step a w = Some w'"
  shows "order_inv w'"
proof (cases a)
  case (Add f)
  have "order_inv (w\<lparr>promises := promises w + 1,
                 rq := (rq w)\<lparr>queue := queue (rq w) @ [\<lparr>fn = f, pid = promises w\<rparr>]\<rparr>,
                 events := events w @ [Submitted (promises w) f]\<rparr>)"
    using inv by (auto simp: order_inv_def before_append is_defs)
  then show ?thesis
    using st Add by (auto simp: add_def Let_def intro: order_inv_process)
next
  case (Tick d)
  with st inv show ?thesis by (auto simp: order_inv_def)
next
  case (TimerFires p)
  with st have "timerFires p w = Some w'" by simp
  then show ?thesis
    using inv
    by (cases rule: timerFires_cases) (auto simp: order_inv_def before_append is_defs)
next
  case (Resume p)
  with st have "resume p w = Some w'" by simp
  from resume_result [OF this] obtain e where
    e: "lookup p (inflight w) = Some (e, Ready)" and
    w': "w' = w\<lparr>inflight := set_phase p Running (inflight w),
                 events := events w @ [Invoked p (fn e)]\<rparr>"
    by blast
  from ids obtain k where "dequeued_pids (events w) = [0 ..< k]"
    "set (pids_of (inflight w)) \<union> set (settled_pids (events w)) = {0 ..< k}"
    unfolding ids_inv_def by blast
  with lookup_in_pids [OF e] have "p \<in> set (dequeued_pids (events w))" by auto
  then have "\<exists>x \<in> set (events w). is_dequeue p x" by (simp add: is_dequeue_mem)
  then show ?thesis
    using inv by (auto simp: w' order_inv_def before_append is_invoke_def is_release_def)
next
  case (Settles p outcome)
  with st have "settles p outcome w = Some w'" by simp
  from settles_result [OF this] obtain e where
    w': "w' = process (w\<lparr>rq := (rq w)\<lparr>activeRequests := activeRequests (rq w) - 1\<rparr>,
                       inflight := finished p (inflight w),
                       events := events w @
                         [case outcome of Inr result \<Rightarrow> Resolved p result
                                        | Inl error \<Rightarrow> Rejected p error,
                          Released p]\<rparr>)"
    by blast
  have "order_inv (w\<lparr>rq := (rq w)\<lparr>activeRequests := activeRequests (rq w) - 1\<rparr>,
                       inflight := finished p (inflight w),
                       events := events w @
                         [case outcome of Inr result \<Rightarrow> Resolved p result
                                        | Inl error \<Rightarrow> Rejected p error,
                          Released p]\<rparr>)"
    using inv by (cases outcome) (auto simp: order_inv_def before_append is_defs)
  then show ?thesis unfolding w' by (rule order_inv_process)
qed

lemma order_inv_boot: "order_inv (boot t0 m r)"
  by (simp add: order_inv_def boot_def)

lemma exec_history_invs:
  assumes "exec acts (boot t0 m r) = Some w"
  shows "ids_inv w \<and> invoked_inv w \<and> order_inv w"
  using assms
proof (rule exec_invariant)
  show "ids_inv (boot t0 m r) \<and> invoked_inv (boot t0 m r) \<and> order_inv (boot t0 m r)"
    by (simp add: ids_inv_boot invoked_inv_boot order_inv_boot)
next
  fix a and u u' :: "('a, 'b, 'c) world"
  assume "ids_inv u \<and> invoked_inv u \<and> order_inv u" "step a u = Some u'"
  then show "ids_inv u' \<and> invoked_inv u' \<and> order_inv u'"
    by (auto intro: ids_inv_step invoked_inv_step order_inv_step)
qed







lemma fst_set_phase [simp]: "fst ` set (set_phase p ph xs) = fst ` set xs"
  by (induction xs) (auto simp: set_phase_def)





lemma distinct_count_list: "distinct xs \<Longrightarrow> count_list xs x = (if x \<in> set xs then 1 else 0)"
  by (induction xs) auto

lemma drain_settles_all:
  fixes w :: "('f, 'e, 'v) world"
  assumes run: "exec acts (boot t0 m r) = Some w" and limit: "0 < maxConcurrent (rq w)"
  shows "\<exists>acts' w'. drain out (3 * (length (queue (rq w)) + length (inflight w))) w = Some w'
           \<and> exec acts' w = Some w' \<and> list_all (quiet out) acts'
           \<and> promises w' = promises w \<and> queue (rq w') = [] \<and> inflight w' = []
           \<and> distinct (settled_pids (events w'))
           \<and> set (settled_pids (events w')) = {0 ..< promises w}"
proof -
  note invs = exec_invs [OF run]
  from drain_completes [OF invs work_bound, of out] obtain acts' w' where
    d: "drain out (3 * (length (queue (rq w)) + length (inflight w))) w = Some w'"
       "exec acts' w = Some w'" "list_all (quiet out) acts'" "inflight w' = []"
    by blast
  note invs' = exec_invs_from [OF d(2) invs]
  have p: "promises w' = promises w" using d(2,3) by (rule exec_quiet_promises)
  have "0 < maxConcurrent (rq w')" using exec_limits [OF d(2)] limit by simp
  from all_settled [OF invs' d(4) this] d p show ?thesis by auto
qed



lemmas run_defs =
  boot_def constructor_def add_def process_def requestClearance_def waitForRateLimit_def
  timerFires_def resume_def settles_def set_phase_def finished_def

subsection \<open>Every schedule does a bounded amount of work\<close>

lemma sum_list_pointwise:
  "(\<And>x. x \<in> set xs \<Longrightarrow> g x \<le> (f x :: nat)) \<Longrightarrow> sum_list (map g xs) \<le> sum_list (map f xs)"
  by (induction xs) (auto intro: add_mono)

lemma sum_list_pointwise_strict:
  assumes "\<And>x. x \<in> set xs \<Longrightarrow> g x \<le> (f x :: nat)" "y \<in> set xs" "g y < f y"
  shows "sum_list (map g xs) < sum_list (map f xs)"
  using assms
proof (induction xs)
  case Nil
  then show ?case by simp
next
  case (Cons x xs)
  show ?case
  proof (cases "y = x")
    case True
    have "sum_list (map g xs) \<le> sum_list (map f xs)"
      using Cons.prems(1) by (intro sum_list_pointwise) auto
    with True Cons.prems(3) show ?thesis by simp
  next
    case False
    with Cons.prems have "y \<in> set xs" by simp
    from Cons.IH [OF _ this Cons.prems(3)] Cons.prems(1)
    have "sum_list (map g xs) < sum_list (map f xs)" by auto
    moreover have "g x \<le> f x" using Cons.prems(1) by simp
    ultimately show ?thesis by simp
  qed
qed

lemma sum_set_phase:
  "sum_list (map (\<lambda>x. f (snd x)) (set_phase p ph xs))
     = sum_list (map (\<lambda>x. f (if pid (fst x) = p then ph else snd x)) xs)"
  by (induction xs) (auto simp: set_phase_def)

lemma sum_finished:
  "distinct (pids_of xs) \<Longrightarrow> lookup p xs = Some (e, ph) \<Longrightarrow>
   sum_list (map (\<lambda>x. f (snd x)) (finished p xs)) + f ph
     = sum_list (map (\<lambda>x. (f (snd x) :: nat)) xs)"
proof (induction xs)
  case Nil
  then show ?case by simp
next
  case (Cons x xs)
  show ?case
  proof (cases "pid (fst x) = p")
    case True
    with Cons.prems have "p \<notin> set (pids_of xs)" by (simp add: pids_of_def)
    then have "finished p xs = xs"
      by (auto simp: finished_def pids_of_def filter_id_conv)
    with True Cons.prems show ?thesis by (simp add: finished_def)
  next
    case False
    with Cons show ?thesis by (auto simp: finished_def pids_of_def)
  qed
qed

lemma cost_prune:
  "cost n (filter P log) ph \<le> cost n log ph"
proof (cases ph)
  case (Sleeping due)
  have "length (filter (\<lambda>ts. due < ts + 1000) (filter P log))
          \<le> length (filter (\<lambda>ts. due < ts + 1000) log)"
    by (induction log) auto
  with Sleeping show ?thesis by simp
qed simp_all

lemma cost_grant:
  "cost n (filter P log @ [c]) ph \<le> cost (Suc n) log ph"
proof (cases ph)
  case (Sleeping due)
  have "length (filter (\<lambda>ts. due < ts + 1000) (filter P log))
          \<le> length (filter (\<lambda>ts. due < ts + 1000) log)"
    by (induction log) auto
  with Sleeping show ?thesis by simp
qed simp_all


lemma potential_process: "potential (process w) \<le> potential w"
proof (cases rule: process_cases [of w])
  case idle
  then show ?thesis by simp
next
  case (cleared e es)
  let ?L = "requestTimestamps (rq w)"
  let ?kept = "filter (\<lambda>ts. clock w - 1000 < ts) ?L"
  let ?S = "sum_list (map (\<lambda>x. sleeping (snd x)) (inflight w))"
  let ?N = "length es + ?S"
  have n: "ungranted w = Suc ?N" "ungranted (process w) = ?N"
    by (simp_all add: ungranted_def cleared(1,3))
  have before: "potential w = (3 + length ?L + Suc ?N) + length es * (3 + length ?L + Suc ?N)
      + sum_list (map (\<lambda>x. cost (Suc ?N) ?L (snd x)) (inflight w))"
    unfolding potential_def n by (simp add: cleared(1))
  have after: "potential (process w) = length es * (3 + length (?kept @ [clock w]) + ?N)
      + sum_list (map (\<lambda>x. cost ?N (?kept @ [clock w]) (snd x)) (inflight w)) + 2"
    unfolding potential_def n by (simp add: cleared(3))
  have "sum_list (map (\<lambda>x. cost ?N (?kept @ [clock w]) (snd x)) (inflight w))
          \<le> sum_list (map (\<lambda>x. cost (Suc ?N) ?L (snd x)) (inflight w))"
    by (intro sum_list_pointwise cost_grant)
  moreover have "length es * (3 + length (?kept @ [clock w]) + ?N)
          \<le> length es * (3 + length ?L + Suc ?N)"
    by (intro mult_le_mono2) simp
  ultimately show ?thesis unfolding before after by linarith
next
  case (asleep e es d)
  let ?L = "requestTimestamps (rq w)"
  let ?kept = "filter (\<lambda>ts. clock w - 1000 < ts) ?L"
  let ?S = "sum_list (map (\<lambda>x. sleeping (snd x)) (inflight w))"
  let ?N = "Suc (length es + ?S)"
  have n: "ungranted w = ?N" "ungranted (process w) = ?N"
    by (simp_all add: ungranted_def asleep(1,3))
  have before: "potential w = (3 + length ?L + ?N) + length es * (3 + length ?L + ?N)
      + sum_list (map (\<lambda>x. cost ?N ?L (snd x)) (inflight w))"
    unfolding potential_def n by (simp add: asleep(1))
  have after: "potential (process w) = length es * (3 + length ?kept + ?N)
      + sum_list (map (\<lambda>x. cost ?N ?kept (snd x)) (inflight w))
      + (3 + length (filter (\<lambda>ts. clock w + d < ts + 1000) ?kept) + ?N)"
    unfolding potential_def n by (simp add: asleep(3))
  have "sum_list (map (\<lambda>x. cost ?N ?kept (snd x)) (inflight w))
          \<le> sum_list (map (\<lambda>x. cost ?N ?L (snd x)) (inflight w))"
    by (intro sum_list_pointwise cost_prune)
  moreover have "length es * (3 + length ?kept + ?N) \<le> length es * (3 + length ?L + ?N)"
    by (intro mult_le_mono2) simp
  moreover have "length (filter (\<lambda>ts. clock w + d < ts + 1000) ?kept) \<le> length ?L"
    by (rule le_trans [OF length_filter_le]) simp
  ultimately show ?thesis unfolding before after by linarith
qed


lemma cost_grant_less:
  "n < m \<Longrightarrow> cost n (filter P log @ [c]) ph \<le> cost m log ph"
  using cost_grant [of n P log c ph] by (cases ph) auto

lemma phase_unique:
  assumes "distinct (pids_of xs)" "lookup p xs = Some (e, ph)" "x \<in> set xs" "pid (fst x) = p"
  shows "snd x = ph"
  using lookup_distinct [OF assms(1,3)] assms(2,4) by auto

lemma potential_step:
  fixes w :: "('f, 'e, 'v) world"
  assumes d: "distinct (pids_of (inflight w))" and st: "step a w = Some w'"
    and q: "quiet out a"
  shows "potential w' + (if busy a then 1 else 0) \<le> potential w"
proof (cases a)
  case (Add f)
  with q show ?thesis by (simp add: quiet_def)
next
  case (Tick n)
  with st show ?thesis by (auto simp: potential_def ungranted_def busy_def)
next
  case (Resume p)
  with st have "resume p w = Some w'" by simp
  from resume_result [OF this] obtain e where
    e: "lookup p (inflight w) = Some (e, Ready)" and
    w': "w' = w\<lparr>inflight := set_phase p Running (inflight w),
                 events := events w @ [Invoked p (fn e)]\<rparr>"
    by blast
  note one = phase_unique [OF d e]
  have "sum_list (map (\<lambda>x. sleeping (if pid (fst x) = p then Running else snd x)) (inflight w))
          = sum_list (map (\<lambda>x. sleeping (snd x)) (inflight w))"
    by (intro arg_cong [where f = sum_list] map_cong) (auto simp: one)
  then have n: "ungranted w' = ungranted w"
    by (simp add: ungranted_def w' sum_set_phase)
  have "sum_list (map (\<lambda>x. cost (ungranted w) (requestTimestamps (rq w))
                              (if pid (fst x) = p then Running else snd x)) (inflight w))
          < sum_list (map (\<lambda>x. cost (ungranted w) (requestTimestamps (rq w)) (snd x)) (inflight w))"
    using lookup_Some [OF e]
    by (intro sum_list_pointwise_strict [where y = "(e, Ready)"]) (auto simp: one)
  then show ?thesis
    unfolding potential_def n by (simp add: w' sum_set_phase Resume busy_def)
next
  case (Settles p outcome)
  with st have "settles p outcome w = Some w'" by simp
  from settles_result [OF this] obtain e where
    e: "lookup p (inflight w) = Some (e, Running)" and
    w': "w' = process (w\<lparr>rq := (rq w)\<lparr>activeRequests := activeRequests (rq w) - 1\<rparr>,
                       inflight := finished p (inflight w),
                       events := events w @
                         [case outcome of Inr result \<Rightarrow> Resolved p result
                                        | Inl error \<Rightarrow> Rejected p error,
                          Released p]\<rparr>)"
    by blast
  let ?w2 = "w\<lparr>rq := (rq w)\<lparr>activeRequests := activeRequests (rq w) - 1\<rparr>,
                       inflight := finished p (inflight w),
                       events := events w @
                         [case outcome of Inr result \<Rightarrow> Resolved p result
                                        | Inl error \<Rightarrow> Rejected p error,
                          Released p]\<rparr>"
  have n: "ungranted ?w2 = ungranted w"
    using sum_finished [OF d e, of sleeping] by (simp add: ungranted_def)
  have "potential ?w2 + 1 = potential w"
    unfolding potential_def n
    using sum_finished [OF d e, of "cost (ungranted w) (requestTimestamps (rq w))"] by simp
  with potential_process [of ?w2] show ?thesis
    by (simp add: w' Settles busy_def)
next
  case (TimerFires p)
  with st have "timerFires p w = Some w'" by simp
  then show ?thesis
  proof (cases rule: timerFires_cases)
    case (cleared e due)
    let ?L = "requestTimestamps (rq w)"
    let ?kept = "filter (\<lambda>ts. clock w - 1000 < ts) ?L"
    note one = phase_unique [OF d cleared(1)]
    have mem: "(e, Sleeping due) \<in> set (inflight w)" using lookup_Some [OF cleared(1)] by simp
    have "sum_list (map (\<lambda>x. sleeping (if pid (fst x) = p then Ready else snd x)) (inflight w))
            < sum_list (map (\<lambda>x. sleeping (snd x)) (inflight w))"
      using lookup_Some [OF cleared(1)]
      by (intro sum_list_pointwise_strict [where y = "(e, Sleeping due)"]) (auto simp: one)
    then have n: "ungranted w' < ungranted w"
      by (simp add: ungranted_def cleared(3) sum_set_phase)
    have "sum_list (map (\<lambda>x. cost (ungranted w') (?kept @ [clock w])
                                (if pid (fst x) = p then Ready else snd x)) (inflight w))
            < sum_list (map (\<lambda>x. cost (ungranted w) ?L (snd x)) (inflight w))"
      using lookup_Some [OF cleared(1)] n
      by (intro sum_list_pointwise_strict [where y = "(e, Sleeping due)"])
         (auto simp: one cost_grant_less)
    moreover have "length (queue (rq w)) * (3 + length (?kept @ [clock w]) + ungranted w')
            \<le> length (queue (rq w)) * (3 + length ?L + ungranted w)"
    proof (intro mult_le_mono2)
      have k: "length ?kept \<le> length ?L" by simp
      have l: "length (?kept @ [clock w]) = Suc (length ?kept)" by simp
      show "3 + length (?kept @ [clock w]) + ungranted w' \<le> 3 + length ?L + ungranted w"
        using n k unfolding l by linarith
    qed
    moreover have "potential w' = length (queue (rq w)) * (3 + length (?kept @ [clock w]) + ungranted w')
            + sum_list (map (\<lambda>x. cost (ungranted w') (?kept @ [clock w])
                                (if pid (fst x) = p then Ready else snd x)) (inflight w))"
      unfolding potential_def by (simp add: cleared(3) sum_set_phase)
    moreover have "potential w = length (queue (rq w)) * (3 + length ?L + ungranted w)
            + sum_list (map (\<lambda>x. cost (ungranted w) ?L (snd x)) (inflight w))"
      by (simp add: potential_def)
    ultimately have "potential w' + 1 \<le> potential w" by linarith
    then show ?thesis by (simp add: TimerFires busy_def)
  next
    case (asleep e due n)
    let ?L = "requestTimestamps (rq w)"
    let ?kept = "filter (\<lambda>ts. clock w - 1000 < ts) ?L"
    note one = phase_unique [OF d asleep(1)]
    have "sum_list (map (\<lambda>x. sleeping (if pid (fst x) = p then Sleeping (clock w + n) else snd x))
                     (inflight w))
            = sum_list (map (\<lambda>x. sleeping (snd x)) (inflight w))"
      by (intro arg_cong [where f = sum_list] map_cong) (auto simp: one)
    then have same: "ungranted w' = ungranted w"
      by (simp add: ungranted_def asleep(3) sum_set_phase)
    have due': "clock w + n = hd ?kept + 1000" using asleep(7) by simp
    have "hd ?kept \<in> set ?kept" using asleep(6) by (rule hd_in_set)
    then have "length (filter (\<lambda>ts. hd ?kept < ts) ?kept) < length ?kept"
      by (intro length_filter_less [of "hd ?kept"]) auto
    moreover have "length ?kept \<le> length (filter (\<lambda>ts. due < ts + 1000) ?L)"
      using asleep(2) by (intro length_filter_imp) auto
    ultimately have strict: "cost (ungranted w) ?kept (Sleeping (clock w + n))
            < cost (ungranted w) ?L (Sleeping due)"
      by (simp add: due')
    have "sum_list (map (\<lambda>x. cost (ungranted w) ?kept
                                (if pid (fst x) = p then Sleeping (clock w + n) else snd x))
                     (inflight w))
            < sum_list (map (\<lambda>x. cost (ungranted w) ?L (snd x)) (inflight w))"
      using lookup_Some [OF asleep(1)] strict
      by (intro sum_list_pointwise_strict [where y = "(e, Sleeping due)"])
         (auto simp: one cost_prune simp del: cost.simps)
    moreover have "length (queue (rq w)) * (3 + length ?kept + ungranted w)
            \<le> length (queue (rq w)) * (3 + length ?L + ungranted w)"
      by (intro mult_le_mono2) simp
    moreover have "potential w' = length (queue (rq w)) * (3 + length ?kept + ungranted w)
            + sum_list (map (\<lambda>x. cost (ungranted w) ?kept
                                (if pid (fst x) = p then Sleeping (clock w + n) else snd x))
                     (inflight w))"
      unfolding potential_def same by (simp add: asleep(3) sum_set_phase)
    moreover have "potential w = length (queue (rq w)) * (3 + length ?L + ungranted w)
            + sum_list (map (\<lambda>x. cost (ungranted w) ?L (snd x)) (inflight w))"
      by (simp add: potential_def)
    ultimately have "potential w' + 1 \<le> potential w" by linarith
    then show ?thesis by (simp add: TimerFires busy_def)
  qed
qed


lemma potential_exec:
  fixes w :: "('f, 'e, 'v) world"
  assumes "exec acts w = Some w'" "list_all (quiet out) acts"
    "ids_inv w \<and> count_inv w \<and> idle_inv w"
  shows "potential w' + length (filter busy acts) \<le> potential w"
  using assms
proof (induction acts arbitrary: w)
  case Nil
  then show ?case by simp
next
  case (Cons a acts)
  from Cons.prems(1) obtain w1 where w1: "step a w = Some w1" "exec acts w1 = Some w'"
    by (auto split: option.splits)
  from Cons.prems(2) have q: "quiet out a" "list_all (quiet out) acts" by simp_all
  from Cons.prems(3) have d: "distinct (pids_of (inflight w))" by (auto simp: ids_inv_def)
  have "ids_inv w1 \<and> count_inv w1 \<and> idle_inv w1"
    using Cons.prems(3) w1(1) by (auto intro: ids_inv_step count_inv_step idle_inv_step)
  from Cons.IH [OF w1(2) q(2) this] potential_step [OF d w1(1) q(1)]
  show ?case by (auto split: if_splits)
qed

subsection \<open>Clearance comes before the call, the call before the settlement\<close>

lemma lookup_append:
  "lookup q (xs @ ys) = (case lookup q xs of None \<Rightarrow> lookup q ys | Some x \<Rightarrow> Some x)"
  by (induction xs) auto

lemma lookup_finished_self: "lookup p (finished p xs) = None"
  by (induction xs) (auto simp: finished_def)

lemma lookup_None_iff: "lookup p xs = None \<longleftrightarrow> p \<notin> set (pids_of xs)"
  by (induction xs) (auto simp: pids_of_def)

lemma is_invoke_mem: "(\<exists>x \<in> set evs. is_invoke p x) \<longleftrightarrow> p \<in> set (invoked_pids evs)"
  by (induction evs) (auto simp: is_invoke_def invoked_pids_def split: event.splits)

lemma is_clear_mem: "(\<exists>x \<in> set evs. is_clear p x) \<longleftrightarrow> p \<in> set (cleared_pids evs)"
  by (induction evs) (auto simp: is_clear_def cleared_pids_def split: event.splits)


lemma before_D: "before A B evs \<Longrightarrow> \<exists>x \<in> set evs. B x \<Longrightarrow> \<exists>x \<in> set evs. A x"
  by (induction evs) auto








lemma fresh_head:
  assumes "ids_inv w" "queue (rq w) = e # es"
  shows "lookup (pid e) (inflight w) = None \<and> pid e \<notin> set (settled_pids (events w))"
proof -
  from assms(1) obtain k where k: "map pid (queue (rq w)) = [k ..< promises w]"
    "set (pids_of (inflight w)) \<union> set (settled_pids (events w)) = {0 ..< k}"
    unfolding ids_inv_def by blast
  from k(1) assms(2) have "pid e = k" by (auto dest: Cons_eq_upt_D)
  with k(2) have "pid e \<notin> set (pids_of (inflight w))" "pid e \<notin> set (settled_pids (events w))"
    by auto
  then show ?thesis by (simp add: lookup_None_iff)
qed

lemma cleared_inv_process:
  assumes ids: "ids_inv w" and inv: "cleared_inv w"
  shows "cleared_inv (process w)"
proof (cases rule: process_cases [of w])
  case idle
  with inv show ?thesis by simp
next
  case (cleared e es)
  note fresh = fresh_head [OF ids cleared(1)]
  from inv fresh have new: "pid e \<notin> set (cleared_pids (events w))"
    by (auto simp: cleared_inv_def)
  have ev: "cleared_pids (events (process w)) = cleared_pids (events w) @ [pid e]"
    "settled_pids (events (process w)) = settled_pids (events w)"
    by (simp_all add: cleared(3) cleared_pids_def settled_pids_def)
  have fl: "inflight (process w) = inflight w @ [(e, Ready)]" by (simp add: cleared(3))
  have "distinct (cleared_pids (events (process w)))"
    using inv new by (simp add: ev cleared_inv_def)
  moreover have "map_option snd (lookup p (inflight (process w))) = Some Ready \<or>
        map_option snd (lookup p (inflight (process w))) = Some Running \<or>
        p \<in> set (settled_pids (events (process w)))"
    if "p \<in> set (cleared_pids (events (process w)))" for p
  proof (cases "p = pid e")
    case True
    with fresh show ?thesis by (simp add: fl lookup_append)
  next
    case False
    with that have "p \<in> set (cleared_pids (events w))" by (simp add: ev)
    with inv have "map_option snd (lookup p (inflight w)) = Some Ready \<or>
        map_option snd (lookup p (inflight w)) = Some Running \<or>
        p \<in> set (settled_pids (events w))"
      by (simp add: cleared_inv_def)
    then show ?thesis by (auto simp: fl ev lookup_append)
  qed
  moreover have "p \<in> set (cleared_pids (events (process w)))"
    if "map_option snd (lookup p (inflight (process w))) = Some Ready" for p
  proof (cases "lookup p (inflight w)")
    case None
    with that have "p = pid e" by (auto simp: fl lookup_append split: if_splits)
    then show ?thesis by (simp add: ev)
  next
    case (Some x)
    with that have "map_option snd (lookup p (inflight w)) = Some Ready"
      by (simp add: fl lookup_append)
    with inv show ?thesis by (simp add: ev cleared_inv_def)
  qed
  moreover have "before (is_clear p) (is_invoke p) (events (process w))" for p
    using inv by (auto simp: cleared_inv_def cleared(3) before_append is_invoke_def)
  ultimately show ?thesis unfolding cleared_inv_def by blast
next
  case (asleep e es d)
  have ev: "cleared_pids (events (process w)) = cleared_pids (events w)"
    "settled_pids (events (process w)) = settled_pids (events w)"
    by (simp_all add: asleep(3) cleared_pids_def settled_pids_def)
  have fl: "inflight (process w) = inflight w @ [(e, Sleeping (clock w + d))]"
    by (simp add: asleep(3))
  have "map_option snd (lookup p (inflight (process w))) = Some Ready \<or>
        map_option snd (lookup p (inflight (process w))) = Some Running \<or>
        p \<in> set (settled_pids (events (process w)))"
    if "p \<in> set (cleared_pids (events (process w)))" for p
  proof -
    from that inv have "map_option snd (lookup p (inflight w)) = Some Ready \<or>
        map_option snd (lookup p (inflight w)) = Some Running \<or>
        p \<in> set (settled_pids (events w))"
      by (simp add: ev cleared_inv_def)
    then show ?thesis by (auto simp: fl ev lookup_append)
  qed
  moreover have "p \<in> set (cleared_pids (events (process w)))"
    if "map_option snd (lookup p (inflight (process w))) = Some Ready" for p
  proof (cases "lookup p (inflight w)")
    case None
    with that show ?thesis by (auto simp: fl lookup_append split: if_splits)
  next
    case (Some x)
    with that have "map_option snd (lookup p (inflight w)) = Some Ready"
      by (simp add: fl lookup_append)
    with inv show ?thesis by (simp add: ev cleared_inv_def)
  qed
  moreover have "before (is_clear p) (is_invoke p) (events (process w))" for p
    using inv by (auto simp: cleared_inv_def asleep(3) before_append is_invoke_def)
  moreover have "distinct (cleared_pids (events (process w)))"
    using inv by (simp add: ev cleared_inv_def)
  ultimately show ?thesis unfolding cleared_inv_def by blast
qed


lemma cleared_inv_frame:
  assumes inv: "cleared_inv w"
    and c: "cleared_pids (events w') = cleared_pids (events w)"
    and s: "set (settled_pids (events w)) \<subseteq> set (settled_pids (events w'))"
    and keep: "\<And>q. map_option snd (lookup q (inflight w)) = Some Ready \<or>
                    map_option snd (lookup q (inflight w)) = Some Running \<Longrightarrow>
                 map_option snd (lookup q (inflight w')) = Some Ready \<or>
                 map_option snd (lookup q (inflight w')) = Some Running \<or>
                 q \<in> set (settled_pids (events w'))"
    and ready: "\<And>q. map_option snd (lookup q (inflight w')) = Some Ready \<Longrightarrow>
                 map_option snd (lookup q (inflight w)) = Some Ready"
    and ord: "\<And>q. before (is_clear q) (is_invoke q) (events w')"
  shows "cleared_inv w'"
proof -
  have "map_option snd (lookup p (inflight w')) = Some Ready \<or>
        map_option snd (lookup p (inflight w')) = Some Running \<or>
        p \<in> set (settled_pids (events w'))"
    if "p \<in> set (cleared_pids (events w'))" for p
  proof -
    from that inv have "map_option snd (lookup p (inflight w)) = Some Ready \<or>
        map_option snd (lookup p (inflight w)) = Some Running \<or>
        p \<in> set (settled_pids (events w))"
      by (simp add: c cleared_inv_def)
    then show ?thesis using keep [of p] s by blast
  qed
  moreover have "p \<in> set (cleared_pids (events w'))"
    if "map_option snd (lookup p (inflight w')) = Some Ready" for p
    using ready [OF that] inv by (simp add: c cleared_inv_def)
  moreover have "distinct (cleared_pids (events w'))"
    using inv by (simp add: c cleared_inv_def)
  ultimately show ?thesis using ord unfolding cleared_inv_def by blast
qed

lemma cleared_inv_step:
  assumes ids: "ids_inv w" and inv: "cleared_inv w" and st: "step a w = Some w'"
  shows "cleared_inv w'"
proof (cases a)
  case (Add f)
  let ?w1 = "w\<lparr>promises := promises w + 1,
                 rq := (rq w)\<lparr>queue := queue (rq w) @ [\<lparr>fn = f, pid = promises w\<rparr>]\<rparr>,
                 events := events w @ [Submitted (promises w) f]\<rparr>"
  have "cleared_inv ?w1"
    using inv
  proof (rule cleared_inv_frame)
    show "before (is_clear q) (is_invoke q) (events ?w1)" for q
      using inv by (auto simp: cleared_inv_def before_append is_invoke_def)
  qed (auto simp: cleared_pids_def settled_pids_def)
  from cleared_inv_process [OF ids_inv_add [OF ids, of f] this] show ?thesis
    using st Add by (auto simp: add_def Let_def)
next
  case (Tick d)
  with st have w': "w' = w\<lparr>clock := clock w + int d\<rparr>" by auto
  show ?thesis using inv unfolding w' cleared_inv_def by simp
next
  case (TimerFires p)
  with st have "timerFires p w = Some w'" by simp
  then show ?thesis
  proof (cases rule: timerFires_cases)
    case (cleared e due)
    from ids have "distinct (pids_of (inflight w) @ settled_pids (events w))"
      by (auto simp: ids_inv_def)
    with lookup_in_pids [OF cleared(1)] have "p \<notin> set (settled_pids (events w))" by auto
    with inv cleared(1) have new: "p \<notin> set (cleared_pids (events w))"
      by (auto simp: cleared_inv_def)
    have ev: "cleared_pids (events w') = cleared_pids (events w) @ [p]"
      "settled_pids (events w') = settled_pids (events w)"
      by (simp_all add: cleared(3) cleared_pids_def settled_pids_def)
    have now: "lookup p (inflight w') = Some (e, Ready)"
      using lookup_set_phase [OF cleared(1), of Ready] by (simp add: cleared(3))
    have other: "lookup q (inflight w') = lookup q (inflight w)" if "q \<noteq> p" for q
      using that by (simp add: cleared(3) lookup_set_phase_other)
    have "distinct (cleared_pids (events w'))"
      using inv new by (simp add: ev cleared_inv_def)
    moreover have "map_option snd (lookup q (inflight w')) = Some Ready \<or>
        map_option snd (lookup q (inflight w')) = Some Running \<or>
        q \<in> set (settled_pids (events w'))"
      if "q \<in> set (cleared_pids (events w'))" for q
    proof (cases "q = p")
      case True
      with now show ?thesis by simp
    next
      case False
      with that inv show ?thesis by (auto simp: ev other cleared_inv_def)
    qed
    moreover have "q \<in> set (cleared_pids (events w'))"
      if "map_option snd (lookup q (inflight w')) = Some Ready" for q
    proof (cases "q = p")
      case True
      then show ?thesis by (simp add: ev)
    next
      case False
      with that inv show ?thesis by (auto simp: ev other cleared_inv_def)
    qed
    moreover have "before (is_clear q) (is_invoke q) (events w')" for q
      using inv by (auto simp: cleared_inv_def cleared(3) before_append is_invoke_def)
    ultimately show ?thesis unfolding cleared_inv_def by blast
  next
    case (asleep e due d)
    have now: "lookup p (inflight w') = Some (e, Sleeping (clock w + d))"
      using lookup_set_phase [OF asleep(1), of "Sleeping (clock w + d)"] by (simp add: asleep(3))
    have other: "lookup q (inflight w') = lookup q (inflight w)" if "q \<noteq> p" for q
      using that by (simp add: asleep(3) lookup_set_phase_other)
    show ?thesis
      using inv
    proof (rule cleared_inv_frame)
      fix q
      assume "map_option snd (lookup q (inflight w)) = Some Ready \<or>
              map_option snd (lookup q (inflight w)) = Some Running"
      with asleep(1) have "q \<noteq> p" by auto
      then show "map_option snd (lookup q (inflight w')) = Some Ready \<or>
                 map_option snd (lookup q (inflight w')) = Some Running \<or>
                 q \<in> set (settled_pids (events w'))"
        using \<open>map_option snd (lookup q (inflight w)) = Some Ready \<or>
              map_option snd (lookup q (inflight w)) = Some Running\<close>
        by (auto simp: other)
    next
      fix q
      assume r: "map_option snd (lookup q (inflight w')) = Some Ready"
      with now have "q \<noteq> p" by auto
      with r show "map_option snd (lookup q (inflight w)) = Some Ready" by (simp add: other)
    next
      show "before (is_clear q) (is_invoke q) (events w')" for q
        using inv by (simp add: cleared_inv_def asleep(3))
    qed (simp_all add: asleep(3))
  qed
next
  case (Resume p)
  with st have "resume p w = Some w'" by simp
  from resume_result [OF this] obtain e where
    e: "lookup p (inflight w) = Some (e, Ready)" and
    w': "w' = w\<lparr>inflight := set_phase p Running (inflight w),
                 events := events w @ [Invoked p (fn e)]\<rparr>"
    by blast
  have now: "lookup p (inflight w') = Some (e, Running)"
    using lookup_set_phase [OF e, of Running] by (simp add: w')
  have other: "lookup q (inflight w') = lookup q (inflight w)" if "q \<noteq> p" for q
    using that by (simp add: w' lookup_set_phase_other)
  from inv e have "p \<in> set (cleared_pids (events w))" by (simp add: cleared_inv_def)
  then have was_cleared: "\<exists>x \<in> set (events w). is_clear p x" by (simp add: is_clear_mem)
  show ?thesis
    using inv
  proof (rule cleared_inv_frame)
    fix q
    assume a: "map_option snd (lookup q (inflight w)) = Some Ready \<or>
              map_option snd (lookup q (inflight w)) = Some Running"
    show "map_option snd (lookup q (inflight w')) = Some Ready \<or>
                 map_option snd (lookup q (inflight w')) = Some Running \<or>
                 q \<in> set (settled_pids (events w'))"
      using a now by (cases "q = p") (auto simp: other)
  next
    fix q
    assume r: "map_option snd (lookup q (inflight w')) = Some Ready"
    with now have "q \<noteq> p" by auto
    with r show "map_option snd (lookup q (inflight w)) = Some Ready" by (simp add: other)
  next
    show "before (is_clear q) (is_invoke q) (events w')" for q
      using inv was_cleared
      by (auto simp: cleared_inv_def w' before_append is_invoke_def)
  qed (simp_all add: w' cleared_pids_def settled_pids_def)
next
  case (Settles p outcome)
  with st have "settles p outcome w = Some w'" by simp
  from settles_result [OF this] obtain e where
    e: "lookup p (inflight w) = Some (e, Running)" and
    w': "w' = process (w\<lparr>rq := (rq w)\<lparr>activeRequests := activeRequests (rq w) - 1\<rparr>,
                       inflight := finished p (inflight w),
                       events := events w @
                         [case outcome of Inr result \<Rightarrow> Resolved p result
                                        | Inl error \<Rightarrow> Rejected p error,
                          Released p]\<rparr>)"
    by blast
  let ?w2 = "w\<lparr>rq := (rq w)\<lparr>activeRequests := activeRequests (rq w) - 1\<rparr>,
                       inflight := finished p (inflight w),
                       events := events w @
                         [case outcome of Inr result \<Rightarrow> Resolved p result
                                        | Inl error \<Rightarrow> Rejected p error,
                          Released p]\<rparr>"
  have sp: "settled_pids (events w @
                         [case outcome of Inr result \<Rightarrow> Resolved p result
                                        | Inl error \<Rightarrow> Rejected p error,
                          Released p]) = settled_pids (events w) @ [p]"
    "cleared_pids (events w @
                         [case outcome of Inr result \<Rightarrow> Resolved p result
                                        | Inl error \<Rightarrow> Rejected p error,
                          Released p]) = cleared_pids (events w)"
    by (cases outcome; simp add: settled_pids_def cleared_pids_def)+
  have "cleared_inv ?w2"
    using inv
  proof (rule cleared_inv_frame)
    fix q
    assume a: "map_option snd (lookup q (inflight w)) = Some Ready \<or>
              map_option snd (lookup q (inflight w)) = Some Running"
    show "map_option snd (lookup q (inflight ?w2)) = Some Ready \<or>
                 map_option snd (lookup q (inflight ?w2)) = Some Running \<or>
                 q \<in> set (settled_pids (events ?w2))"
    proof (cases "q = p")
      case True
      have "p \<in> set (settled_pids (events ?w2))" by (simp add: sp)
      with True show ?thesis by blast
    next
      case False
      then have "lookup q (inflight ?w2) = lookup q (inflight w)"
        by (simp add: lookup_finished_other)
      with a show ?thesis by presburger
    qed
  next
    fix q
    assume r: "map_option snd (lookup q (inflight ?w2)) = Some Ready"
    then have "q \<noteq> p" by (auto simp: lookup_finished_self)
    with r show "map_option snd (lookup q (inflight w)) = Some Ready"
      by (simp add: lookup_finished_other)
  next
    show "before (is_clear q) (is_invoke q) (events ?w2)" for q
      using inv by (cases outcome) (auto simp: cleared_inv_def before_append is_invoke_def)
  qed (auto simp: sp)
  moreover have "ids_inv ?w2"
    by (intro ids_inv_settle [OF ids e] settle_events)
  ultimately show ?thesis unfolding w' by (intro cleared_inv_process)
qed

lemma cleared_inv_boot: "cleared_inv (boot t0 m r)"
  by (simp add: cleared_inv_def boot_def cleared_pids_def)

lemma exec_cleared_inv:
  assumes "exec acts (boot t0 m r) = Some w"
  shows "cleared_inv w"
proof -
  have "ids_inv w \<and> cleared_inv w"
    using assms
  proof (rule exec_invariant)
    show "ids_inv (boot t0 m r) \<and> cleared_inv (boot t0 m r)"
      by (simp add: ids_inv_boot cleared_inv_boot)
  next
    fix a and u u' :: "('a, 'b, 'c) world"
    assume "ids_inv u \<and> cleared_inv u" "step a u = Some u'"
    then show "ids_inv u' \<and> cleared_inv u'"
      by (auto intro: ids_inv_step cleared_inv_step)
  qed
  then show ?thesis by simp
qed

lemma length_start_times: "length (start_times evs) = length (cleared_pids evs)"
  by (induction evs) (auto simp: start_times_def cleared_pids_def split: event.splits)


lemma invoked_pids_process: "invoked_pids (events (process w)) = invoked_pids (events w)"
  by (cases rule: process_cases [of w]) (simp_all add: invoked_pids_def)

lemma step_invoke_times:
  assumes "step a w = Some w'"
  shows "length (invoked_pids (events w'))
           = length (invoked_pids (events w)) + length (invoke_times [a] w)"
proof (cases a)
  case (Add f)
  with assms show ?thesis
    by (auto simp: add_def Let_def invoked_pids_process) (simp add: invoked_pids_def)
next
  case (Tick d)
  with assms show ?thesis by auto
next
  case (TimerFires q)
  with assms have t: "timerFires q w = Some w'" by simp
  then have "invoked_pids (events w') = invoked_pids (events w)"
    by (cases rule: timerFires_cases) (simp_all add: invoked_pids_def)
  with t show ?thesis by (simp add: TimerFires)
next
  case (Resume q)
  with assms have r: "resume q w = Some w'" by simp
  from resume_result [OF r] have "invoked_pids (events w') = invoked_pids (events w) @ [q]"
    by (auto simp: invoked_pids_def)
  with r show ?thesis by (simp add: Resume)
next
  case (Settles q outcome)
  with assms have s: "settles q outcome w = Some w'" by simp
  from settles_result [OF s] have "invoked_pids (events w') = invoked_pids (events w)"
    by (cases outcome) (auto simp: invoked_pids_process, simp_all add: invoked_pids_def)
  with s show ?thesis by (simp add: Settles)
qed

lemma exec_invoke_times:
  "exec acts w = Some w' \<Longrightarrow>
   length (invoked_pids (events w'))
     = length (invoked_pids (events w)) + length (invoke_times acts w)"
proof (induction acts arbitrary: w)
  case Nil
  then show ?case by simp
next
  case (Cons a acts)
  from Cons.prems obtain w1 where w1: "step a w = Some w1" "exec acts w1 = Some w'"
    by (auto split: option.splits)
  from Cons.IH [OF w1(2)] step_invoke_times [OF w1(1)] w1(1)
  show ?case by (simp split: action.splits)
qed



subsection \<open>Construction\<close>

text \<open>
  C10. Constructing the dispatcher with no arguments yields the limits 30 and 40; with
  arguments, whatever they are (zero and negative numbers too), it stores them as they
  are. The counter starts at 0, the queue and the timestamp log start empty.
\<close>

theorem constructor_defaults_no_validation:
  "(constructor None None :: 'f RequestQueue) =
     \<lparr> maxConcurrent = 30, requestsPerSecond = 40, activeRequests = 0,
       queue = [], requestTimestamps = [] \<rparr>
   \<and> (constructor (Some m) (Some r) :: 'f RequestQueue) =
     \<lparr> maxConcurrent = m, requestsPerSecond = r, activeRequests = 0,
       queue = [], requestTimestamps = [] \<rparr>
   \<and> (constructor (Some m) None :: 'f RequestQueue) =
     \<lparr> maxConcurrent = m, requestsPerSecond = 40, activeRequests = 0,
       queue = [], requestTimestamps = [] \<rparr>"
  by (simp add: constructor_def)

subsection \<open>The dispatch loop at rest\<close>

text \<open>
  C9. Called while the queue is empty or while the counter has reached
  \<open>maxConcurrent\<close>, \<open>process()\<close> changes nothing: the queue, the counter, the timestamp
  log and everything else are as before.
\<close>

theorem process_noop:
  "activeRequests (rq w) \<ge> maxConcurrent (rq w) \<or> length (queue (rq w)) = 0
   \<Longrightarrow> process w = w"
  by (simp add: process_def)

theorem process_noop_witness:
  "process (boot 0 (Some 2) (Some 1) :: (nat, unit, unit) world) = boot 0 (Some 2) (Some 1)
   \<and> process
        (\<lparr>rq = \<lparr>maxConcurrent = 2, requestsPerSecond = 5, activeRequests = 2,
                 queue = [\<lparr>fn = 3, pid = 2\<rparr>], requestTimestamps = [0, 0]\<rparr>,
          clock = 0,
          inflight = [(\<lparr>fn = 1, pid = 0\<rparr>, Ready), (\<lparr>fn = 2, pid = 1\<rparr>, Ready)],
          promises = 3,
          events = [Submitted 0 1, Dequeued 0, Cleared 0 0, Submitted 1 2, Dequeued 1,
                    Cleared 1 0, Submitted 2 3]\<rparr> :: (nat, unit, unit) world)
      = \<lparr>rq = \<lparr>maxConcurrent = 2, requestsPerSecond = 5, activeRequests = 2,
                 queue = [\<lparr>fn = 3, pid = 2\<rparr>], requestTimestamps = [0, 0]\<rparr>,
          clock = 0,
          inflight = [(\<lparr>fn = 1, pid = 0\<rparr>, Ready), (\<lparr>fn = 2, pid = 1\<rparr>, Ready)],
          promises = 3,
          events = [Submitted 0 1, Dequeued 0, Cleared 0 0, Submitted 1 2, Dequeued 1,
                    Cleared 1 0, Submitted 2 3]\<rparr>"
  using process_noop [of "boot 0 (Some 2) (Some 1) :: (nat, unit, unit) world"]
        process_noop
          [of "\<lparr>rq = \<lparr>maxConcurrent = 2, requestsPerSecond = 5, activeRequests = 2,
                 queue = [\<lparr>fn = 3, pid = 2\<rparr>], requestTimestamps = [0, 0]\<rparr>,
          clock = 0,
          inflight = [(\<lparr>fn = 1, pid = 0\<rparr>, Ready), (\<lparr>fn = 2, pid = 1\<rparr>, Ready)],
          promises = 3,
          events = [Submitted 0 1, Dequeued 0, Cleared 0 0, Submitted 1 2, Dequeued 1,
                    Cleared 1 0, Submitted 2 3]\<rparr> :: (nat, unit, unit) world"]
  by (simp add: boot_def constructor_def)

subsection \<open>One clearance check\<close>

text \<open>
  C3, as the code has it. A clearance check keeps the logged timestamps \<open>ts\<close> with
  \<open>now - 1000 < ts\<close> and discards the others (a timestamp of exactly \<open>now - 1000\<close> goes
  too). If fewer than \<open>requestsPerSecond\<close> remain, it grants clearance and appends
  \<open>now\<close>. Otherwise, if a timestamp remains, the wait \<open>oldest + 1000 - now\<close> is
  positive, the check suspends for it, and when the timer fires the whole check runs
  again at the new clock. Otherwise (nothing remains, and \<open>requestsPerSecond \<le> 0\<close>) it
  grants clearance and appends \<open>now\<close>.
\<close>

theorem waitForRateLimit_steps:
  "(let kept = filter (\<lambda>ts. now - 1000 < ts) (requestTimestamps q) in
      (int (length kept) < requestsPerSecond q \<longrightarrow>
         waitForRateLimit now q = (Granted, q\<lparr>requestTimestamps := kept @ [now]\<rparr>)) \<and>
      (requestsPerSecond q \<le> int (length kept) \<and> kept \<noteq> [] \<longrightarrow>
         0 < hd kept + 1000 - now \<and>
         waitForRateLimit now q = (Suspend (hd kept + 1000 - now), q\<lparr>requestTimestamps := kept\<rparr>)) \<and>
      (requestsPerSecond q \<le> int (length kept) \<and> kept = [] \<longrightarrow>
         waitForRateLimit now q = (Granted, q\<lparr>requestTimestamps := [now]\<rparr>)))
   \<and> (timerFires p w = Some w' \<longrightarrow>
        rq w' = snd (waitForRateLimit (clock w) (rq w)) \<and>
        map_option snd (lookup p (inflight w')) =
          Some (case fst (waitForRateLimit (clock w) (rq w)) of
                  Granted \<Rightarrow> Ready
                | Suspend waitTime \<Rightarrow> Sleeping (clock w + waitTime)))"
proof -
  have check: "let kept = filter (\<lambda>ts. now - 1000 < ts) (requestTimestamps q) in
      (int (length kept) < requestsPerSecond q \<longrightarrow>
         waitForRateLimit now q = (Granted, q\<lparr>requestTimestamps := kept @ [now]\<rparr>)) \<and>
      (requestsPerSecond q \<le> int (length kept) \<and> kept \<noteq> [] \<longrightarrow>
         0 < hd kept + 1000 - now \<and>
         waitForRateLimit now q = (Suspend (hd kept + 1000 - now), q\<lparr>requestTimestamps := kept\<rparr>)) \<and>
      (requestsPerSecond q \<le> int (length kept) \<and> kept = [] \<longrightarrow>
         waitForRateLimit now q = (Granted, q\<lparr>requestTimestamps := [now]\<rparr>))"
    by (auto simp: waitForRateLimit_def Let_def filter_eq_Cons_iff split: list.splits)
  have again: "rq w' = snd (waitForRateLimit (clock w) (rq w)) \<and>
        map_option snd (lookup p (inflight w')) =
          Some (case fst (waitForRateLimit (clock w) (rq w)) of
                  Granted \<Rightarrow> Ready
                | Suspend waitTime \<Rightarrow> Sleeping (clock w + waitTime))"
    if fires: "timerFires p w = Some w'"
  proof -
    from fires obtain e due where sl: "lookup p (inflight w) = Some (e, Sleeping due)"
      by (auto simp: timerFires_def split: option.splits phase.splits if_splits)
    obtain c q' where c: "waitForRateLimit (clock w) (rq w) = (c, q')"
      by (cases "waitForRateLimit (clock w) (rq w)")
    show ?thesis
      using fires sl c lookup_set_phase [OF sl]
      by (cases c) (auto simp: timerFires_def requestClearance_def split: if_splits)
  qed
  show ?thesis using check again by blast
qed

theorem waitForRateLimit_steps_witness:
  "waitForRateLimit 400
     (\<lparr> maxConcurrent = 3, requestsPerSecond = 2, activeRequests = 0,
        queue = [], requestTimestamps = [-700, 100, 300] \<rparr> :: nat RequestQueue)
   = (Suspend 700,
      \<lparr> maxConcurrent = 3, requestsPerSecond = 2, activeRequests = 0,
        queue = [], requestTimestamps = [100, 300] \<rparr>)
   \<and> waitForRateLimit 1200
     (\<lparr> maxConcurrent = 3, requestsPerSecond = 2, activeRequests = 0,
        queue = [], requestTimestamps = [100, 300] \<rparr> :: nat RequestQueue)
   = (Granted,
      \<lparr> maxConcurrent = 3, requestsPerSecond = 2, activeRequests = 0,
        queue = [], requestTimestamps = [300, 1200] \<rparr>)"
  using waitForRateLimit_steps
          [of 400 "\<lparr> maxConcurrent = 3, requestsPerSecond = 2, activeRequests = 0,
                     queue = [], requestTimestamps = [-700, 100, 300] \<rparr> :: nat RequestQueue",
           THEN conjunct1]
        waitForRateLimit_steps
          [of 1200 "\<lparr> maxConcurrent = 3, requestsPerSecond = 2, activeRequests = 0,
                      queue = [], requestTimestamps = [100, 300] \<rparr> :: nat RequestQueue",
           THEN conjunct1]
  by (simp add: Let_def)

text \<open>
  The claim as the specification words it fails in two places. With one start per second
  and a start logged at 0, the check at 1000 finds a timestamp that is not older than
  \<open>now - 1000\<close>, yet discards it and grants clearance. With a limit of 0 and an empty
  log, the count is not below the limit, yet the check grants clearance instead of
  suspending.
\<close>

theorem waitForRateLimit_steps_counterexample:
  "\<not> ((0::int) < 1000 - 1000)
   \<and> waitForRateLimit 1000
       (\<lparr> maxConcurrent = 3, requestsPerSecond = 1, activeRequests = 0,
          queue = [], requestTimestamps = [0] \<rparr> :: nat RequestQueue)
     = (Granted,
        \<lparr> maxConcurrent = 3, requestsPerSecond = 1, activeRequests = 0,
          queue = [], requestTimestamps = [1000] \<rparr>)
   \<and> \<not> (int (length ([] :: int list)) < 0)
   \<and> waitForRateLimit 5
       (\<lparr> maxConcurrent = 3, requestsPerSecond = 0, activeRequests = 0,
          queue = [], requestTimestamps = [] \<rparr> :: nat RequestQueue)
     = (Granted,
        \<lparr> maxConcurrent = 3, requestsPerSecond = 0, activeRequests = 0,
          queue = [], requestTimestamps = [5] \<rparr>)"
  by (simp add: waitForRateLimit_def)

subsection \<open>A limit that is not positive\<close>

text \<open>
  C4, as the code has it. With \<open>requestsPerSecond \<le> 0\<close> a clearance check grants
  clearance exactly when no logged timestamp lies in the trailing 1000 ms; the first
  check of a new dispatcher does.
\<close>

theorem nonpositive_limit_clearance:
  "requestsPerSecond q \<le> 0 \<Longrightarrow>
   (fst (waitForRateLimit now q) = Granted)
     = (filter (\<lambda>ts. now - 1000 < ts) (requestTimestamps q) = [])"
  by (auto simp: waitForRateLimit_def Let_def filter_eq_Cons_iff split: list.splits)

theorem nonpositive_limit_clearance_witness:
  "requestsPerSecond (constructor (Some 30) (Some 0) :: nat RequestQueue) \<le> 0
   \<and> fst (waitForRateLimit 5 (constructor (Some 30) (Some 0) :: nat RequestQueue)) = Granted"
  using nonpositive_limit_clearance [of "constructor (Some 30) (Some 0) :: nat RequestQueue" 5]
  by (simp add: constructor_def)

text \<open>
  With a limit of 0, and with a limit of -1, the first task that is submitted is cleared
  at once and its function is called.
\<close>

theorem nonpositive_limit_counterexample:
  "map_option events
     (exec [Add (7::nat), Resume 0] (boot 5 (Some 30) (Some 0) :: (nat, unit, unit) world))
   = Some [Submitted 0 7, Dequeued 0, Cleared 0 5, Invoked 0 7]
   \<and> map_option events
     (exec [Add (7::nat), Resume 0] (boot 5 (Some 30) (Some (-1)) :: (nat, unit, unit) world))
   = Some [Submitted 0 7, Dequeued 0, Cleared 0 5, Invoked 0 7]"
  by (simp add: boot_def constructor_def add_def process_def requestClearance_def
      waitForRateLimit_def resume_def set_phase_def)

subsection \<open>The rate limit\<close>

text \<open>
  C1, as the code has it. The limiter logs one start timestamp for each task it clears
  (line 29), and the clock never goes back. In every run of a dispatcher that was
  constructed with a positive \<open>requestsPerSecond\<close>, and for every instant \<open>t\<close>, at most
  \<open>requestsPerSecond\<close> of the logged start timestamps lie in the trailing window
  \<open>(t - 1000, t]\<close>. A task is cleared at most once, its function is called only after
  its clearance was logged, and so there are never more calls than logged starts (the
  calls being counted by \<open>invoke_times\<close> as well as in the history). The instants of the
  calls themselves are not bounded so, and neither is a window that is closed at both
  ends.
\<close>

theorem rate_limit_window:
  fixes w :: "('f, 'e, 'v) world"
  assumes run: "exec acts (boot t0 m r) = Some w"
    and positive: "0 < requestsPerSecond (constructor m r :: 'f RequestQueue)"
  shows "int (starts_within t (start_times (events w)))
           \<le> requestsPerSecond (constructor m r :: 'f RequestQueue)
       \<and> before (is_clear p) (is_invoke p) (events w)
       \<and> count_list (cleared_pids (events w)) p \<le> 1
       \<and> length (start_times (events w)) = length (cleared_pids (events w))
       \<and> length (invoked_pids (events w)) \<le> length (start_times (events w))
       \<and> length (invoke_times acts (boot t0 m r)) = length (invoked_pids (events w))"
proof -
  have "rate_inv w"
    using run rate_inv_boot rate_inv_step by (rule exec_invariant)
  then have "int (starts_within t (start_times (events w))) \<le> max 1 (requestsPerSecond (rq w))"
    by (simp add: rate_inv_def rate_ok_def starts_within_def)
  moreover have "requestsPerSecond (rq w) = requestsPerSecond (constructor m r :: 'f RequestQueue)"
    using exec_limits [OF run] by (simp add: boot_def)
  ultimately have window: "int (starts_within t (start_times (events w)))
           \<le> requestsPerSecond (constructor m r :: 'f RequestQueue)"
    using positive by simp
  from exec_cleared_inv [OF run] have order: "\<And>q. before (is_clear q) (is_invoke q) (events w)"
    and d: "distinct (cleared_pids (events w))"
    by (simp_all add: cleared_inv_def)
  from d have once: "count_list (cleared_pids (events w)) p \<le> 1"
    by (simp add: distinct_count_list)
  from exec_history_invs [OF run] have di: "distinct (invoked_pids (events w))"
    by (simp add: invoked_inv_def)
  have "set (invoked_pids (events w)) \<subseteq> set (cleared_pids (events w))"
  proof
    fix q assume "q \<in> set (invoked_pids (events w))"
    then have "\<exists>x \<in> set (events w). is_invoke q x" by (simp add: is_invoke_mem)
    from before_D [OF order this] show "q \<in> set (cleared_pids (events w))"
      by (simp add: is_clear_mem)
  qed
  then have "card (set (invoked_pids (events w))) \<le> card (set (cleared_pids (events w)))"
    by (intro card_mono) simp_all
  with d di have calls: "length (invoked_pids (events w)) \<le> length (start_times (events w))"
    by (simp add: distinct_card length_start_times)
  have times: "length (invoke_times acts (boot t0 m r)) = length (invoked_pids (events w))"
    using exec_invoke_times [OF run] by (simp add: boot_def invoked_pids_def)
  from window order [of p] once calls times show ?thesis
    by (simp add: length_start_times)
qed

theorem rate_limit_window_witness:
  "exec [Add (1::nat), Add 2, Resume 0, Tick 1000, Add 3, Resume 2, TimerFires 1]
     (boot 0 (Some 3) (Some 1) :: (nat, unit, unit) world) =
   Some \<lparr>rq = \<lparr>maxConcurrent = 3, requestsPerSecond = 1, activeRequests = 3,
           queue = [], requestTimestamps = [1000]\<rparr>,
     clock = 1000,
     inflight =
       [(\<lparr>fn = 1, pid = 0\<rparr>, Running), (\<lparr>fn = 2, pid = 1\<rparr>, Sleeping 2000),
        (\<lparr>fn = 3, pid = 2\<rparr>, Running)],
     promises = 3,
     events =
       [Submitted 0 1, Dequeued 0, Cleared 0 0, Submitted 1 2, Dequeued 1,
        Invoked 0 1, Submitted 2 3, Dequeued 2, Cleared 2 1000,
        Invoked 2 3]\<rparr>
   \<and> 0 < requestsPerSecond (constructor (Some 3) (Some 1) :: nat RequestQueue)
   \<and> int (starts_within 999 [0, 1000]) \<le> 1
   \<and> int (starts_within 1000 [0, 1000]) \<le> 1
   \<and> before (is_clear 2) (is_invoke 2)
        ([Submitted 0 1, Dequeued 0, Cleared 0 0, Submitted 1 2, Dequeued 1,
          Invoked 0 1, Submitted 2 3, Dequeued 2, Cleared 2 1000,
          Invoked 2 3] :: (nat, unit, unit) event list)
   \<and> length (invoke_times
        [Add (1::nat), Add 2, Resume 0, Tick 1000, Add 3, Resume 2, TimerFires 1]
        (boot 0 (Some 3) (Some 1) :: (nat, unit, unit) world)) = 2"
proof -
  have run: "exec [Add (1::nat), Add 2, Resume 0, Tick 1000, Add 3, Resume 2, TimerFires 1]
     (boot 0 (Some 3) (Some 1) :: (nat, unit, unit) world) =
   Some \<lparr>rq = \<lparr>maxConcurrent = 3, requestsPerSecond = 1, activeRequests = 3,
           queue = [], requestTimestamps = [1000]\<rparr>,
     clock = 1000,
     inflight =
       [(\<lparr>fn = 1, pid = 0\<rparr>, Running), (\<lparr>fn = 2, pid = 1\<rparr>, Sleeping 2000),
        (\<lparr>fn = 3, pid = 2\<rparr>, Running)],
     promises = 3,
     events =
       [Submitted 0 1, Dequeued 0, Cleared 0 0, Submitted 1 2, Dequeued 1,
        Invoked 0 1, Submitted 2 3, Dequeued 2, Cleared 2 1000,
        Invoked 2 3]\<rparr>"
    by (simp add: run_defs)
  have positive: "0 < requestsPerSecond (constructor (Some 3) (Some 1) :: nat RequestQueue)"
    by (simp add: constructor_def)
  from rate_limit_window [OF run positive, of 999 2]
       rate_limit_window [OF run positive, of 1000 2] run positive
  show ?thesis by (simp add: start_times_def invoked_pids_def constructor_def)
qed

text \<open>
  Two tasks, one start per second. The limiter logs the start of the first task at 0,
  and the clock reads 1 when the function of the first task is called. The second task
  sleeps until 1000, is cleared at 1000 (the timestamp 0 is exactly 1000 ms old and is
  discarded) and its function is called at 1000. Both calls lie in the window
  \<open>(0, 1000]\<close>, and both logged starts lie in the closed window \<open>[0, 1000]\<close>.
\<close>

theorem task_start_window_counterexample:
  "map_option events
     (exec [Add (1::nat), Add 2, Tick 1, Resume 0, Tick 999, TimerFires 1, Resume 1]
        (boot 0 (Some 2) (Some 1) :: (nat, unit, unit) world))
   = Some [Submitted 0 1, Dequeued 0, Cleared 0 0, Submitted 1 2, Dequeued 1,
           Invoked 0 1, Cleared 1 1000, Invoked 1 2]
   \<and> invoke_times [Add (1::nat), Add 2, Tick 1, Resume 0, Tick 999, TimerFires 1, Resume 1]
        (boot 0 (Some 2) (Some 1) :: (nat, unit, unit) world) = [1, 1000]
   \<and> requestsPerSecond (constructor (Some 2) (Some 1) :: nat RequestQueue) = 1
   \<and> starts_within 1000 [1, 1000] = 2
   \<and> start_times
        ([Submitted 0 1, Dequeued 0, Cleared 0 0, Submitted 1 2, Dequeued 1,
          Invoked 0 1, Cleared 1 1000, Invoked 1 2] :: (nat, unit, unit) event list)
      = [0, 1000]
   \<and> starts_within_closed 1000 [0, 1000] = 2"
  by (simp add: run_defs start_times_def starts_within_def starts_within_closed_def)

subsection \<open>The concurrency limit\<close>

text \<open>
  C2. In every run of a dispatcher whose \<open>maxConcurrent\<close> is not negative, the counter
  \<open>activeRequests\<close> stays between 0 and \<open>maxConcurrent\<close>; it is the number of calls in
  flight (dequeued and not yet released), so neither the calls in flight nor the tasks
  that are executing ever outnumber \<open>maxConcurrent\<close>.
\<close>

theorem concurrency_bound:
  fixes w :: "('f, 'e, 'v) world"
  assumes run: "exec acts (boot t0 m r) = Some w"
    and limit: "0 \<le> maxConcurrent (constructor m r :: 'f RequestQueue)"
  shows "0 \<le> activeRequests (rq w)
       \<and> activeRequests (rq w) \<le> maxConcurrent (constructor m r :: 'f RequestQueue)
       \<and> activeRequests (rq w) = int (length (inflight w))
       \<and> int (length (filter (\<lambda>x. snd x = Running) (inflight w)))
            \<le> maxConcurrent (constructor m r :: 'f RequestQueue)"
proof -
  from exec_invs [OF run] have c: "count_inv w" by simp
  have same: "maxConcurrent (rq w) = maxConcurrent (constructor m r :: 'f RequestQueue)"
    using exec_limits [OF run] by (simp add: boot_def)
  from c have counter: "activeRequests (rq w) = int (length (inflight w))"
    and bound: "activeRequests (rq w) \<le> max 0 (maxConcurrent (rq w))"
    by (simp_all add: count_inv_def)
  have running: "int (length (filter (\<lambda>x. snd x = Running) (inflight w)))
                   \<le> int (length (inflight w))"
    by simp
  show ?thesis using counter bound running same limit by linarith
qed

theorem concurrency_bound_witness:
  "exec [Add (1::nat), Add 2, Add 3, Resume 0, Resume 1, Settles 0 (Inl ()), Resume 2]
     (boot 0 (Some 2) (Some 5) :: (nat, unit, unit) world) =
   Some \<lparr>rq = \<lparr>maxConcurrent = 2, requestsPerSecond = 5, activeRequests = 2,
                queue = [], requestTimestamps = [0, 0, 0]\<rparr>,
          clock = 0,
          inflight = [(\<lparr>fn = 2, pid = 1\<rparr>, Running), (\<lparr>fn = 3, pid = 2\<rparr>, Running)],
          promises = 3,
          events = [Submitted 0 1, Dequeued 0, Cleared 0 0, Submitted 1 2, Dequeued 1,
                    Cleared 1 0, Submitted 2 3, Invoked 0 1, Invoked 1 2, Rejected 0 (),
                    Released 0, Dequeued 2, Cleared 2 0, Invoked 2 3]\<rparr>
   \<and> (0::int) \<le> 2 \<and> (2::int) \<le> 2"
proof -
  have run: "exec [Add (1::nat), Add 2, Add 3, Resume 0, Resume 1, Settles 0 (Inl ()), Resume 2]
     (boot 0 (Some 2) (Some 5) :: (nat, unit, unit) world) =
   Some \<lparr>rq = \<lparr>maxConcurrent = 2, requestsPerSecond = 5, activeRequests = 2,
                queue = [], requestTimestamps = [0, 0, 0]\<rparr>,
          clock = 0,
          inflight = [(\<lparr>fn = 2, pid = 1\<rparr>, Running), (\<lparr>fn = 3, pid = 2\<rparr>, Running)],
          promises = 3,
          events = [Submitted 0 1, Dequeued 0, Cleared 0 0, Submitted 1 2, Dequeued 1,
                    Cleared 1 0, Submitted 2 3, Invoked 0 1, Invoked 1 2, Rejected 0 (),
                    Released 0, Dequeued 2, Cleared 2 0, Invoked 2 3]\<rparr>"
    by (simp add: boot_def constructor_def add_def process_def requestClearance_def
        waitForRateLimit_def resume_def settles_def set_phase_def finished_def)
  have limit: "0 \<le> maxConcurrent (constructor (Some 2) (Some 5) :: nat RequestQueue)"
    by (simp add: constructor_def)
  from concurrency_bound [OF run limit] run show ?thesis by (simp add: constructor_def)
qed

subsection \<open>The order of dispatch\<close>

text \<open>
  C5, as the code has it. Entries leave the queue in the order of their submission: at
  every moment the promises submitted so far are, in order, those dequeued so far
  followed by those still in the queue. (The order in which dequeued entries are cleared
  by the limiter and invoked is not fixed by the code.)
\<close>

theorem dequeue_order_fifo:
  fixes w :: "('f, 'e, 'v) world"
  assumes run: "exec acts (boot t0 m r) = Some w"
  shows "submitted_pids (events w) = dequeued_pids (events w) @ map pid (queue (rq w))
       \<and> submitted_pids (events w) = [0 ..< promises w]"
proof -
  from exec_invs [OF run] have "ids_inv w" by simp
  then obtain k where k: "k \<le> promises w" "dequeued_pids (events w) = [0 ..< k]"
    "map pid (queue (rq w)) = [k ..< promises w]"
    "submitted_pids (events w) = [0 ..< promises w]"
    unfolding ids_inv_def by blast
  have "[0 ..< promises w] = [0 ..< k] @ [k ..< promises w]"
    using upt_add_eq_append [of 0 k "promises w - k"] k(1) by simp
  with k show ?thesis by simp
qed

theorem dequeue_order_fifo_witness:
  "exec [Add (1::nat), Add 2, Add 3, Add 4]
     (boot 0 (Some 2) (Some 5) :: (nat, unit, unit) world) =
   Some \<lparr>rq = \<lparr>maxConcurrent = 2, requestsPerSecond = 5, activeRequests = 2,
                queue = [\<lparr>fn = 3, pid = 2\<rparr>, \<lparr>fn = 4, pid = 3\<rparr>],
                requestTimestamps = [0, 0]\<rparr>,
          clock = 0,
          inflight = [(\<lparr>fn = 1, pid = 0\<rparr>, Ready), (\<lparr>fn = 2, pid = 1\<rparr>, Ready)],
          promises = 4,
          events = [Submitted 0 1, Dequeued 0, Cleared 0 0, Submitted 1 2, Dequeued 1,
                    Cleared 1 0, Submitted 2 3, Submitted 3 4]\<rparr>
   \<and> [0, 1, 2, 3] = [0, 1] @ [2, 3 :: nat]"
proof -
  have run: "exec [Add (1::nat), Add 2, Add 3, Add 4]
     (boot 0 (Some 2) (Some 5) :: (nat, unit, unit) world) =
   Some \<lparr>rq = \<lparr>maxConcurrent = 2, requestsPerSecond = 5, activeRequests = 2,
                queue = [\<lparr>fn = 3, pid = 2\<rparr>, \<lparr>fn = 4, pid = 3\<rparr>],
                requestTimestamps = [0, 0]\<rparr>,
          clock = 0,
          inflight = [(\<lparr>fn = 1, pid = 0\<rparr>, Ready), (\<lparr>fn = 2, pid = 1\<rparr>, Ready)],
          promises = 4,
          events = [Submitted 0 1, Dequeued 0, Cleared 0 0, Submitted 1 2, Dequeued 1,
                    Cleared 1 0, Submitted 2 3, Submitted 3 4]\<rparr>"
    by (simp add: boot_def constructor_def add_def process_def requestClearance_def
        waitForRateLimit_def)
  from dequeue_order_fifo [OF run] run show ?thesis by (simp add: history_defs)
qed

text \<open>
  Three tasks, one start per second, up to three at a time. The second task is dequeued
  at time 0 and sleeps in the limiter until 1000. At 1000, before its timer has fired,
  the third task is submitted: the window is free, so the third task is cleared and
  invoked at once, and the second, when its timer fires, finds the window full and
  sleeps for another second. The functions are called in the order first, third, second.
\<close>

theorem start_order_counterexample:
  "map_option events
     (exec [Add (1::nat), Add 2, Resume 0, Tick 1000, Add 3, Resume 2, TimerFires 1,
            Tick 1000, TimerFires 1, Resume 1]
        (boot 0 (Some 3) (Some 1) :: (nat, unit, unit) world))
   = Some [Submitted 0 1, Dequeued 0, Cleared 0 0, Submitted 1 2, Dequeued 1,
           Invoked 0 1, Submitted 2 3, Dequeued 2, Cleared 2 1000, Invoked 2 3,
           Cleared 1 2000, Invoked 1 2]
   \<and> submitted_pids
       ([Submitted 0 1, Dequeued 0, Cleared 0 0, Submitted 1 2, Dequeued 1,
         Invoked 0 1, Submitted 2 3, Dequeued 2, Cleared 2 1000, Invoked 2 3,
         Cleared 1 2000, Invoked 1 2] :: (nat, unit, unit) event list) = [0, 1, 2]
   \<and> invoked_pids
       ([Submitted 0 1, Dequeued 0, Cleared 0 0, Submitted 1 2, Dequeued 1,
         Invoked 0 1, Submitted 2 3, Dequeued 2, Cleared 2 1000, Invoked 2 3,
         Cleared 1 2000, Invoked 1 2] :: (nat, unit, unit) event list) = [0, 2, 1]"
  by (simp add: run_defs history_defs)

subsection \<open>Settlement\<close>

text \<open>
  C6. In every run, the \<open>resolve\<close> and \<open>reject\<close> of a promise that \<open>add\<close> returned are
  called at most once together: never both, never twice. The promise is unsettled
  exactly while its entry waits in the queue or its call is in flight, and settled
  exactly once from the moment its call has finished. An entry is dequeued at most once
  and never stands in the queue again. An entry waits in the queue only while the
  counter has reached \<open>maxConcurrent\<close>. With a positive \<open>maxConcurrent\<close>, when no
  further task is submitted and the tasks settle (with the outcomes \<open>out\<close>, whatever
  they are): the scheduler ends, within three rounds for each pending entry, with every
  promise settled exactly once; and every such schedule, whatever its order, takes at
  most \<open>potential w\<close> steps other than the passing of time, and has every promise
  settled exactly once wherever it ends with no call in flight.
\<close>

theorem settles_exactly_once:
  fixes w :: "('f, 'e, 'v) world"
  assumes run: "exec acts (boot t0 m r) = Some w"
  shows "(\<forall>p. length (settled_with p (events w)) \<le> 1)
       \<and> (\<forall>p < promises w.
            length (settled_with p (events w)) =
              (if p \<in> set (map pid (queue (rq w))) \<union> set (pids_of (inflight w)) then 0 else 1))
       \<and> distinct (dequeued_pids (events w))
       \<and> set (dequeued_pids (events w)) \<inter> set (map pid (queue (rq w))) = {}
       \<and> (queue (rq w) \<noteq> [] \<longrightarrow> maxConcurrent (rq w) \<le> activeRequests (rq w))
       \<and> (0 < maxConcurrent (rq w) \<longrightarrow>
            (\<exists>w'. drain out (3 * (length (queue (rq w)) + length (inflight w))) w = Some w'
                 \<and> promises w' = promises w
                 \<and> (\<forall>p < promises w. length (settled_with p (events w')) = 1))
          \<and> (\<forall>acts' w'. exec acts' w = Some w' \<and> list_all (quiet out) acts' \<longrightarrow>
                 length (filter busy acts') \<le> potential w
               \<and> (inflight w' = [] \<longrightarrow>
                    (\<forall>p < promises w. length (settled_with p (events w')) = 1))))"
proof -
  note invs = exec_invs [OF run]
  from invs have ids: "ids_inv w" and idle: "idle_inv w" by simp_all
  from ids obtain k where k: "k \<le> promises w" "dequeued_pids (events w) = [0 ..< k]"
    "map pid (queue (rq w)) = [k ..< promises w]"
    "distinct (pids_of (inflight w) @ settled_pids (events w))"
    "set (pids_of (inflight w)) \<union> set (settled_pids (events w)) = {0 ..< k}"
    unfolding ids_inv_def by blast
  have once: "length (settled_with p (events w)) \<le> 1" for p
    using k(4) by (simp add: length_settled_with distinct_count_list)
  have state: "length (settled_with p (events w)) =
              (if p \<in> set (map pid (queue (rq w))) \<union> set (pids_of (inflight w)) then 0 else 1)"
    if "p < promises w" for p
  proof (cases "p < k")
    case True
    with k(5) have "p \<in> set (pids_of (inflight w)) \<or> p \<in> set (settled_pids (events w))" by auto
    moreover from k(4) have "set (pids_of (inflight w)) \<inter> set (settled_pids (events w)) = {}"
      by simp
    ultimately show ?thesis
      using True k(3,4) by (auto simp: length_settled_with distinct_count_list)
  next
    case False
    with k(5) have "p \<notin> set (settled_pids (events w))" by auto
    with False that k(3) show ?thesis
      by (simp add: length_settled_with)
  qed
  have fresh: "distinct (dequeued_pids (events w))"
    "set (dequeued_pids (events w)) \<inter> set (map pid (queue (rq w))) = {}"
    using k(2,3) by auto
  have live: "\<exists>w'. drain out (3 * (length (queue (rq w)) + length (inflight w))) w = Some w'
                 \<and> promises w' = promises w
                 \<and> (\<forall>p < promises w. length (settled_with p (events w')) = 1)"
    if "0 < maxConcurrent (rq w)"
  proof -
    from drain_settles_all [OF run that, of out] obtain w' where
      "drain out (3 * (length (queue (rq w)) + length (inflight w))) w = Some w'"
      "promises w' = promises w" "distinct (settled_pids (events w'))"
      "set (settled_pids (events w')) = {0 ..< promises w}"
      by blast
    then show ?thesis
      by (auto simp: length_settled_with distinct_count_list)
  qed
  have bounded: "length (filter busy acts') \<le> potential w
               \<and> (inflight w' = [] \<longrightarrow>
                    (\<forall>p < promises w. length (settled_with p (events w')) = 1))"
    if limit: "0 < maxConcurrent (rq w)"
      and ex: "exec acts' w = Some w'" and qu: "list_all (quiet out) acts'" for acts' w'
  proof -
    from potential_exec [OF ex qu invs] have b: "length (filter busy acts') \<le> potential w"
      by simp
    have "\<forall>p < promises w. length (settled_with p (events w')) = 1" if "inflight w' = []"
    proof -
      note invs' = exec_invs_from [OF ex invs]
      have p: "promises w' = promises w" using ex qu by (rule exec_quiet_promises)
      have "0 < maxConcurrent (rq w')" using exec_limits [OF ex] limit by simp
      from all_settled [OF invs' that this] p show ?thesis
        by (auto simp: length_settled_with distinct_count_list)
    qed
    with b show ?thesis by blast
  qed
  from once state fresh idle live bounded show ?thesis
    unfolding idle_inv_def by blast
qed

theorem settles_exactly_once_witness:
  "\<exists>w. exec [Add (1::nat), Add 2, Add 3, Resume 0, Resume 1, Settles 0 (Inl ()), Resume 2]
          (boot 0 (Some 2) (Some 5) :: (nat, unit, nat) world) = Some w
      \<and> events w = [Submitted 0 1, Dequeued 0, Cleared 0 0, Submitted 1 2, Dequeued 1,
                     Cleared 1 0, Submitted 2 3, Invoked 0 1, Invoked 1 2, Rejected 0 (),
                     Released 0, Dequeued 2, Cleared 2 0, Invoked 2 3]
      \<and> length (settled_with 0 (events w)) = 1
      \<and> length (settled_with 1 (events w)) = 0
      \<and> 0 < maxConcurrent (rq w)
      \<and> (\<exists>w'. drain (\<lambda>p. Inr p) (3 * (length (queue (rq w)) + length (inflight w))) w = Some w'
             \<and> promises w' = promises w
             \<and> (\<forall>p < promises w. length (settled_with p (events w')) = 1))
      \<and> (\<exists>w'. exec [Settles 2 (Inr 2), Settles 1 (Inr 1)] w = Some w'
             \<and> inflight w' = []
             \<and> length (filter busy [Settles 2 (Inr 2), Settles 1 (Inr 1) :: (nat, unit, nat) action])
                  \<le> potential w
             \<and> (\<forall>p < promises w. length (settled_with p (events w')) = 1))"
proof -
  let ?W = "\<lparr>rq = \<lparr>maxConcurrent = 2, requestsPerSecond = 5, activeRequests = 2,
                queue = [], requestTimestamps = [0, 0, 0]\<rparr>,
          clock = 0,
          inflight = [(\<lparr>fn = 2, pid = 1\<rparr>, Running), (\<lparr>fn = 3, pid = 2\<rparr>, Running)],
          promises = 3,
          events = [Submitted 0 1, Dequeued 0, Cleared 0 0, Submitted 1 2, Dequeued 1,
                    Cleared 1 0, Submitted 2 3, Invoked 0 1, Invoked 1 2, Rejected 0 (),
                    Released 0, Dequeued 2, Cleared 2 0, Invoked 2 3]\<rparr> :: (nat, unit, nat) world"
  have run: "exec [Add (1::nat), Add 2, Add 3, Resume 0, Resume 1, Settles 0 (Inl ()), Resume 2]
          (boot 0 (Some 2) (Some 5) :: (nat, unit, nat) world) = Some ?W"
    by (simp add: run_defs)
  note t = settles_exactly_once [OF run, of "\<lambda>p. Inr p"]
  have limit: "0 < maxConcurrent (rq ?W)" by simp
  from t limit
  have live: "\<exists>w'. drain (\<lambda>p. Inr p) (3 * (length (queue (rq ?W)) + length (inflight ?W))) ?W = Some w'
             \<and> promises w' = promises ?W
             \<and> (\<forall>p < promises ?W. length (settled_with p (events w')) = 1)"
    by blast
  from t have st: "\<forall>p < promises ?W. length (settled_with p (events ?W)) =
              (if p \<in> set (map pid (queue (rq ?W))) \<union> set (pids_of (inflight ?W)) then 0 else 1)"
    by blast
  have "length (settled_with 0 (events ?W)) = 1" "length (settled_with 1 (events ?W)) = 0"
    using st [rule_format, of 0] st [rule_format, of 1] by (simp_all add: pids_of_def)
  moreover
  let ?acts = "[Settles 2 (Inr 2), Settles 1 (Inr 1)] :: (nat, unit, nat) action list"
  obtain w' where fin: "exec ?acts ?W = Some w'" "inflight w' = []"
    by (simp add: run_defs)
  have quiet: "list_all (quiet (\<lambda>p. Inr p)) ?acts" by (simp add: quiet_def)
  from t limit fin(1) quiet
  have "length (filter busy ?acts) \<le> potential ?W
      \<and> (inflight w' = [] \<longrightarrow> (\<forall>p < promises ?W. length (settled_with p (events w')) = 1))"
    by blast
  with fin have "\<exists>w'. exec ?acts ?W = Some w' \<and> inflight w' = []
             \<and> length (filter busy ?acts) \<le> potential ?W
             \<and> (\<forall>p < promises ?W. length (settled_with p (events w')) = 1)"
    by blast
  ultimately show ?thesis
    using run limit live by (intro exI [of _ ?W]) simp
qed

subsection \<open>The cleanup path\<close>



subsection \<open>What the caller gets\<close>



end
